theory Spec2Isabelle
  imports Complex_Main
begin

section \<open>DecisionTree.hpp: the data model\<close>

text \<open>
  The classifier of \<^verbatim>\<open>src/Algorithm/DecisionTree.hpp\<close>. Conventions of the embedding:
  \<^item> a finite \<^verbatim>\<open>double\<close> is the real number it denotes, so feature values and thresholds
    are of type \<open>real\<close> and comparing them is exact; the operations on \<^verbatim>\<open>double\<close> round,
    so \<open>+\<close>, \<open>-\<close>, \<open>*\<close>, \<open>/\<close> and \<^verbatim>\<open>std::log2\<close> are parameters of the model, an arithmetic
    \<open>A\<close> (see below); infinities and NaN are outside the model;
  \<^item> \<^verbatim>\<open>int\<close> labels, feature indices and counts are modelled by \<open>int\<close>; vectors are
    assumed shorter than \<open>2 ^ 31\<close>, so that no loop counter and no count overflows;
  \<^item> \<^verbatim>\<open>std::vector\<close> is a list; \<^verbatim>\<open>operator[]\<close> out of range is undefined behaviour in
    the source and the value \<open>None\<close> (or \<open>Inl OutOfBounds\<close>) in the model;
  \<^item> \<^verbatim>\<open>std::shared_ptr<Node>\<close> is \<open>Node option\<close>, the null pointer being \<open>None\<close>;
    dereferencing it is \<open>Inl NullPointer\<close>;
  \<^item> \<^verbatim>\<open>std::map<int, int>\<close> is an association list kept in ascending key order, which is
    the order in which the source iterates it.
\<close>

datatype error = OutOfBounds | NullPointer

datatype Node =
  Node (isLeaf: bool) (featureIndex: int) (threshold: real) (label: int)
       (left: "Node option") (right: "Node option")

text \<open>
  The constructor \<^verbatim>\<open>Node(bool isLeaf, int label = -1, int featureIndex = -1,
  double threshold = 0.0)\<close>: both children start as null pointers.
\<close>

definition mkNode :: "bool \<Rightarrow> int \<Rightarrow> int \<Rightarrow> real \<Rightarrow> Node" where
  "mkNode isLeaf' label' featureIndex' threshold' =
     Node isLeaf' featureIndex' threshold' label' None None"

text \<open>\<^verbatim>\<open>Node(true, label)\<close>, with the default arguments filled in.\<close>

definition leafNode :: "int \<Rightarrow> Node" where
  "leafNode label' = mkNode True label' (- 1) 0"

record DecisionTree =
  root :: "Node option"

text \<open>\<^verbatim>\<open>v[i]\<close> for an \<^verbatim>\<open>int\<close> index \<open>i\<close>: defined only within the vector.\<close>

definition nth_opt :: "'a list \<Rightarrow> int \<Rightarrow> 'a option" where
  "nth_opt xs i = (if 0 \<le> i \<and> nat i < length xs then Some (xs ! nat i) else None)"

section \<open>Arithmetic on double\<close>

text \<open>
  The library operations the source uses on \<^verbatim>\<open>double\<close>: addition, subtraction,
  multiplication, division and \<^verbatim>\<open>std::log2\<close>, as functions on the reals that doubles denote.
\<close>

record arith_ops =
  op_add :: "real \<Rightarrow> real \<Rightarrow> real"
  op_sub :: "real \<Rightarrow> real \<Rightarrow> real"
  op_mul :: "real \<Rightarrow> real \<Rightarrow> real"
  op_div :: "real \<Rightarrow> real \<Rightarrow> real"
  op_log2 :: "real \<Rightarrow> real"

text \<open>
  What the model knows of these operations. Each line holds of IEEE 754 binary64 arithmetic
  with rounding to nearest on finite values, where an operation whose exact result is a
  double returns that result: \<open>x / x\<close>, \<open>0 / x\<close>, \<open>x / 2x\<close>, \<open>1 \<cdot> x\<close>, \<open>0 \<cdot> 0\<close>, \<open>x + 0\<close>,
  \<open>x - x\<close> and the three operations on \<open>1/2\<close>; and \<^verbatim>\<open>std::log2\<close> is exact at \<open>1\<close> and at
  \<open>1/2\<close>. Nothing is assumed about how any other result is rounded.
\<close>

definition ieee_exact :: "arith_ops \<Rightarrow> bool" where
  "ieee_exact ops \<longleftrightarrow>
     (\<forall>x. x \<noteq> 0 \<longrightarrow> op_div ops x x = 1) \<and>
     (\<forall>x. x \<noteq> 0 \<longrightarrow> op_div ops 0 x = 0) \<and>
     (\<forall>x. 0 < x \<longrightarrow> op_div ops x (2 * x) = 1 / 2) \<and>
     (\<forall>x. op_mul ops 1 x = x) \<and>
     op_mul ops 0 0 = 0 \<and>
     op_mul ops (1 / 2) (- 1) = - (1 / 2) \<and>
     (\<forall>x. op_add ops x 0 = x) \<and>
     (\<forall>x. op_add ops 0 x = x) \<and>
     (\<forall>x. op_sub ops x x = 0) \<and>
     op_sub ops 0 (- (1 / 2)) = 1 / 2 \<and>
     op_sub ops (1 / 2) (- (1 / 2)) = 1 \<and>
     op_log2 ops 1 = 0 \<and>
     op_log2 ops (1 / 2) = - 1"

text \<open>Arithmetic without rounding: the operations of the reals and the logarithm to base 2.\<close>

definition exact_ops :: arith_ops where
  "exact_ops = \<lparr>op_add = (+), op_sub = (-), op_mul = (*), op_div = (/), op_log2 = log 2\<rparr>"

lemma ieee_exact_exact_ops: "ieee_exact exact_ops"
  by (simp add: ieee_exact_def exact_ops_def log_divide)

text \<open>An arithmetic is a choice of the five operations that satisfies these laws.\<close>

typedef arith = "{ops. ieee_exact ops}"
  using ieee_exact_exact_ops by blast

setup_lifting type_definition_arith

lift_definition fadd :: "arith \<Rightarrow> real \<Rightarrow> real \<Rightarrow> real" is op_add .

lift_definition fsub :: "arith \<Rightarrow> real \<Rightarrow> real \<Rightarrow> real" is op_sub .

lift_definition fmul :: "arith \<Rightarrow> real \<Rightarrow> real \<Rightarrow> real" is op_mul .

lift_definition fdiv :: "arith \<Rightarrow> real \<Rightarrow> real \<Rightarrow> real" is op_div .

lift_definition flog2 :: "arith \<Rightarrow> real \<Rightarrow> real" is op_log2 .

lift_definition exact_arith :: arith is exact_ops
  by (rule ieee_exact_exact_ops)

lemma exact_arith_ops [simp]:
  "fadd exact_arith = (+)" "fsub exact_arith = (-)" "fmul exact_arith = (*)"
  "fdiv exact_arith = (/)" "flog2 exact_arith = log 2"
  by (transfer, simp add: exact_ops_def)+

lemma fdiv_self: "x \<noteq> 0 \<Longrightarrow> fdiv A x x = 1"
  by transfer (simp add: ieee_exact_def)

lemma fdiv_zero: "x \<noteq> 0 \<Longrightarrow> fdiv A 0 x = 0"
  by transfer (simp add: ieee_exact_def)


lemma fmul_one: "fmul A 1 x = x"
  by transfer (simp add: ieee_exact_def)

lemma fmul_zero_zero: "fmul A 0 0 = 0"
  by transfer (simp add: ieee_exact_def)


lemma fadd_zero_right: "fadd A x 0 = x"
  by transfer (simp add: ieee_exact_def)

lemma fadd_zero_left: "fadd A 0 x = x"
  by transfer (simp add: ieee_exact_def)

lemma fsub_self: "fsub A x x = 0"
  by transfer (simp add: ieee_exact_def)





section \<open>Label statistics\<close>

text \<open>
  \<^verbatim>\<open>isPure\<close>: the loop \<^verbatim>\<open>for (int i = 1; i < labels.size(); ++i)\<close> with its early
  \<^verbatim>\<open>return false\<close>. \<^verbatim>\<open>labels[0]\<close> is read only when the loop body runs, that is when
  the list has at least two elements.
\<close>

function isPure_from :: "nat \<Rightarrow> int list \<Rightarrow> bool" where
  "isPure_from i labels =
     (if i < length labels
      then (if labels ! i \<noteq> labels ! 0 then False else isPure_from (Suc i) labels)
      else True)"
  by pat_completeness auto
termination
  by (relation "measure (\<lambda>(i, labels). length labels - i)") auto

declare isPure_from.simps [simp del]

definition isPure :: "int list \<Rightarrow> bool" where
  "isPure labels = isPure_from 1 labels"

text \<open>
  \<^verbatim>\<open>labelCounts[label]++\<close> on a \<^verbatim>\<open>std::map<int, int>\<close>: a missing key is inserted with
  count 0 and then incremented; the keys stay in ascending order.
\<close>

fun incrCount :: "int \<Rightarrow> (int \<times> int) list \<Rightarrow> (int \<times> int) list" where
  "incrCount l [] = [(l, 1)]"
| "incrCount l ((k, c) # m) =
     (if l = k then (k, c + 1) # m
      else if l < k then (l, 1) # (k, c) # m
      else (k, c) # incrCount l m)"

text \<open>\<^verbatim>\<open>for (int label : labels) labelCounts[label]++;\<close>\<close>

definition labelCounts :: "int list \<Rightarrow> (int \<times> int) list" where
  "labelCounts labels = foldl (\<lambda>m l. incrCount l m) [] labels"

text \<open>
  \<^verbatim>\<open>calculateEntropy\<close>: one step of the loop over the map, and the loop from \<open>0.0\<close>. The counts
  and the size are integers below \<open>2 ^ 53\<close>, which \<^verbatim>\<open>static_cast<double>\<close> converts exactly.
\<close>

definition entropyStep :: "arith \<Rightarrow> nat \<Rightarrow> real \<Rightarrow> int \<times> int \<Rightarrow> real" where
  "entropyStep A n entropy kc =
     (let p = fdiv A (real_of_int (snd kc)) (real n)
      in fsub A entropy (fmul A p (flog2 A p)))"

definition calculateEntropy :: "arith \<Rightarrow> int list \<Rightarrow> real" where
  "calculateEntropy A labels = foldl (entropyStep A (length labels)) 0 (labelCounts labels)"

definition calculateInformationGain ::
  "arith \<Rightarrow> int list \<Rightarrow> int list \<Rightarrow> int list \<Rightarrow> real" where
  "calculateInformationGain A parentLabels leftLabels rightLabels =
     (let parentEntropy = calculateEntropy A parentLabels;
          leftEntropy = calculateEntropy A leftLabels;
          rightEntropy = calculateEntropy A rightLabels;
          weightLeft = fdiv A (real (length leftLabels)) (real (length parentLabels));
          weightRight = fdiv A (real (length rightLabels)) (real (length parentLabels))
      in fsub A parentEntropy
           (fadd A (fmul A weightLeft leftEntropy) (fmul A weightRight rightEntropy)))"

text \<open>
  In \<^verbatim>\<open>calculateInformationGain\<close> the divisor \<^verbatim>\<open>parentLabels.size()\<close> is positive wherever
  \<^verbatim>\<open>buildTree\<close> calls it: the parent list is not pure there, hence not empty.
\<close>

text \<open>
  \<^verbatim>\<open>majorityLabel\<close>: the pair \<open>(majorityLabel, maxCount)\<close> starts as \<open>(labels[0], 0)\<close> and
  is replaced by a map entry only when its count is strictly greater.
\<close>

definition majorityStep :: "int \<times> int \<Rightarrow> int \<times> int \<Rightarrow> int \<times> int" where
  "majorityStep acc kc = (if snd kc > snd acc then (fst kc, snd kc) else acc)"

definition majorityLabel :: "int list \<Rightarrow> int option" where
  "majorityLabel labels =
     (case nth_opt labels 0 of
        None \<Rightarrow> None
      | Some l0 \<Rightarrow> Some (fst (foldl majorityStep (l0, 0) (labelCounts labels))))"

section \<open>Splitting\<close>

text \<open>
  \<^verbatim>\<open>splitLabels\<close> and \<^verbatim>\<open>splitData\<close> walk the rows by index \<open>i\<close> and read
  \<^verbatim>\<open>data[i][featureIndex]\<close> and \<^verbatim>\<open>labels[i]\<close>; the recursion below walks both lists
  together, and \<^verbatim>\<open>push_back\<close> in index order is consing in front of what the later rows give.
\<close>

fun splitLabels ::
  "real list list \<Rightarrow> int list \<Rightarrow> int \<Rightarrow> real \<Rightarrow> (int list \<times> int list) option" where
  "splitLabels [] labels featureIndex' threshold' = Some ([], [])"
| "splitLabels (row # data) [] featureIndex' threshold' = None"
| "splitLabels (row # data) (l # labels) featureIndex' threshold' =
     (case nth_opt row featureIndex' of
        None \<Rightarrow> None
      | Some v \<Rightarrow>
          (case splitLabels data labels featureIndex' threshold' of
             None \<Rightarrow> None
           | Some (leftLabels, rightLabels) \<Rightarrow>
               if v \<le> threshold' then Some (l # leftLabels, rightLabels)
               else Some (leftLabels, l # rightLabels)))"

fun splitData ::
  "real list list \<Rightarrow> int list \<Rightarrow> int \<Rightarrow> real \<Rightarrow>
     (real list list \<times> int list \<times> real list list \<times> int list) option" where
  "splitData [] labels featureIndex' threshold' = Some ([], [], [], [])"
| "splitData (row # data) [] featureIndex' threshold' = None"
| "splitData (row # data) (l # labels) featureIndex' threshold' =
     (case nth_opt row featureIndex' of
        None \<Rightarrow> None
      | Some v \<Rightarrow>
          (case splitData data labels featureIndex' threshold' of
             None \<Rightarrow> None
           | Some (leftData, leftLabels, rightData, rightLabels) \<Rightarrow>
               if v \<le> threshold'
               then Some (row # leftData, l # leftLabels, rightData, rightLabels)
               else Some (leftData, leftLabels, row # rightData, l # rightLabels)))"

section \<open>The exhaustive split search\<close>

text \<open>
  The three locals \<open>(bestFeature, bestThreshold, bestInfoGain)\<close> of \<^verbatim>\<open>buildTree\<close>,
  threaded through the two nested loops.
\<close>

type_synonym best = "int \<times> real \<times> real"

text \<open>The body of the inner loop, for one \<open>sample\<close> at one \<open>feature\<close>.\<close>

definition tryCandidate ::
  "arith \<Rightarrow> real list list \<Rightarrow> int list \<Rightarrow> int \<Rightarrow> best \<Rightarrow> real list \<Rightarrow> best option" where
  "tryCandidate A data labels feature b sample =
     (case nth_opt sample feature of
        None \<Rightarrow> None
      | Some threshold' \<Rightarrow>
          (case splitLabels data labels feature threshold' of
             None \<Rightarrow> None
           | Some (leftLabels, rightLabels) \<Rightarrow>
               (let infoGain = calculateInformationGain A labels leftLabels rightLabels
                in if infoGain > snd (snd b)
                   then Some (feature, threshold', infoGain)
                   else Some b)))"

text \<open>\<^verbatim>\<open>for (const auto& sample : data)\<close>, over the samples still to visit.\<close>

fun sampleLoop ::
  "arith \<Rightarrow> real list list \<Rightarrow> int list \<Rightarrow> int \<Rightarrow> real list list \<Rightarrow> best \<Rightarrow> best option" where
  "sampleLoop A data labels feature [] b = Some b"
| "sampleLoop A data labels feature (sample # samples) b =
     (case tryCandidate A data labels feature b sample of
        None \<Rightarrow> None
      | Some b' \<Rightarrow> sampleLoop A data labels feature samples b')"

text \<open>\<^verbatim>\<open>for (int feature = 0; feature < data[0].size(); ++feature)\<close>, over the features still to visit.\<close>

fun featureLoop ::
  "arith \<Rightarrow> real list list \<Rightarrow> int list \<Rightarrow> int list \<Rightarrow> best \<Rightarrow> best option" where
  "featureLoop A data labels [] b = Some b"
| "featureLoop A data labels (feature # features) b =
     (case sampleLoop A data labels feature data b of
        None \<Rightarrow> None
      | Some b' \<Rightarrow> featureLoop A data labels features b')"

text \<open>
  Lines 61 to 77 of \<^verbatim>\<open>buildTree\<close>: the initial locals \<open>(-1, 0.0, 0.0)\<close> and the loops;
  \<^verbatim>\<open>data[0]\<close> is read for its size.
\<close>

definition searchBest :: "arith \<Rightarrow> real list list \<Rightarrow> int list \<Rightarrow> best option" where
  "searchBest A data labels =
     (case nth_opt data 0 of
        None \<Rightarrow> None
      | Some row0 \<Rightarrow> featureLoop A data labels (map int [0..<length row0]) (- 1, 0, 0))"

section \<open>Facts needed for the termination of the tree construction\<close>

lemma isPure_from_iff:
  "isPure_from i labels \<longleftrightarrow> (\<forall>j. i \<le> j \<and> j < length labels \<longrightarrow> labels ! j = labels ! 0)"
proof (induction i labels rule: isPure_from.induct)
  case (1 i labels)
  show ?case
  proof (cases "i < length labels")
    case False
    then show ?thesis by (simp add: isPure_from.simps [of i labels])
  next
    case True
    show ?thesis
    proof (cases "labels ! i = labels ! 0")
      case False
      with True show ?thesis
        by (auto simp: isPure_from.simps [of i labels])
    next
      case eq: True
      have "isPure_from i labels = isPure_from (Suc i) labels"
        using True eq by (simp add: isPure_from.simps [of i labels])
      also have "\<dots> \<longleftrightarrow> (\<forall>j. Suc i \<le> j \<and> j < length labels \<longrightarrow> labels ! j = labels ! 0)"
        using 1 True eq by simp
      also have "\<dots> \<longleftrightarrow> (\<forall>j. i \<le> j \<and> j < length labels \<longrightarrow> labels ! j = labels ! 0)"
        using eq by (metis Suc_leI le_neq_implies_less Suc_leD)
      finally show ?thesis .
    qed
  qed
qed

lemma isPure_iff: "isPure labels \<longleftrightarrow> (\<forall>l \<in> set labels. l = hd labels)"
proof (cases labels)
  case Nil
  then show ?thesis by (simp add: isPure_def isPure_from_iff)
next
  case (Cons a as)
  have "isPure labels \<longleftrightarrow> (\<forall>j. j < length labels \<longrightarrow> labels ! j = labels ! 0)"
    unfolding isPure_def isPure_from_iff
    by (metis One_nat_def Suc_leI not_gr_zero)
  also have "\<dots> \<longleftrightarrow> (\<forall>l \<in> set labels. l = hd labels)"
  proof -
    have "hd labels = labels ! 0" using Cons by simp
    then show ?thesis by (metis in_set_conv_nth)
  qed
  finally show ?thesis .
qed

lemma splitLabels_length:
  "splitLabels data labels f t = Some (L, R) \<Longrightarrow>
     length L + length R = length data \<and> length data \<le> length labels"
  by (induction data labels f t arbitrary: L R rule: splitLabels.induct)
     (auto split: option.splits if_splits prod.splits)

lemma splitLabels_right_empty:
  "splitLabels data labels f t = Some (L, []) \<Longrightarrow> L = take (length data) labels"
  by (induction data labels f t arbitrary: L rule: splitLabels.induct)
     (auto split: option.splits if_splits prod.splits)

lemma splitLabels_left_empty:
  "splitLabels data labels f t = Some ([], R) \<Longrightarrow> R = take (length data) labels"
  by (induction data labels f t arbitrary: R rule: splitLabels.induct)
     (auto split: option.splits if_splits prod.splits)

lemma splitData_splitLabels:
  "splitData data labels f t = Some (ld, ll, rd, rl) \<Longrightarrow> splitLabels data labels f t = Some (ll, rl)"
  by (induction data labels f t arbitrary: ld ll rd rl rule: splitData.induct)
     (auto split: option.splits if_splits prod.splits)

lemma splitData_lengths:
  "splitData data labels f t = Some (ld, ll, rd, rl) \<Longrightarrow> length ld = length ll \<and> length rd = length rl"
  by (induction data labels f t arbitrary: ld ll rd rl rule: splitData.induct)
     (auto split: option.splits if_splits prod.splits)

lemma entropy_empty: "calculateEntropy A [] = 0"
  by (simp add: calculateEntropy_def labelCounts_def)

text \<open>
  A split that leaves one side empty has gain exactly \<open>0.0\<close>: the weights are \<open>n / n = 1.0\<close>
  and \<open>0 / n = 0.0\<close>, and \<open>E - (1.0 \<cdot> E + 0.0 \<cdot> 0.0)\<close> is \<open>E - E\<close>.
\<close>

lemma gain_right_empty: "labels \<noteq> [] \<Longrightarrow> calculateInformationGain A labels labels [] = 0"
  by (simp add: calculateInformationGain_def Let_def entropy_empty fdiv_self fdiv_zero
      fmul_one fmul_zero_zero fadd_zero_right fsub_self)

lemma gain_left_empty: "labels \<noteq> [] \<Longrightarrow> calculateInformationGain A labels [] labels = 0"
  by (simp add: calculateInformationGain_def Let_def entropy_empty fdiv_self fdiv_zero
      fmul_one fmul_zero_zero fadd_zero_left fsub_self)

lemma not_pure_nonempty: "\<not> isPure labels \<Longrightarrow> labels \<noteq> []"
  by (auto simp: isPure_iff)

text \<open>
  What the search maintains about its three locals: the tracked gain never drops below
  its initial \<open>0.0\<close>, and once a feature is recorded the tracked gain is positive and is
  the gain of the recorded pair.
\<close>

definition accepted :: "arith \<Rightarrow> real list list \<Rightarrow> int list \<Rightarrow> best \<Rightarrow> bool" where
  "accepted A data labels b \<longleftrightarrow>
     0 \<le> snd (snd b) \<and>
     (fst b \<noteq> - 1 \<longrightarrow> 0 < snd (snd b) \<and>
        (\<exists>L R. splitLabels data labels (fst b) (fst (snd b)) = Some (L, R) \<and>
               snd (snd b) = calculateInformationGain A labels L R))"

lemma tryCandidate_accepted:
  "tryCandidate A data labels f b s = Some b' \<Longrightarrow> accepted A data labels b \<Longrightarrow> accepted A data labels b'"
  by (auto simp: tryCandidate_def accepted_def Let_def split: option.splits if_splits)

lemma sampleLoop_accepted:
  "sampleLoop A data labels f ss b = Some b' \<Longrightarrow> accepted A data labels b \<Longrightarrow> accepted A data labels b'"
  by (induction ss arbitrary: b) (auto split: option.splits dest: tryCandidate_accepted)

lemma featureLoop_accepted:
  "featureLoop A data labels fs b = Some b' \<Longrightarrow> accepted A data labels b \<Longrightarrow> accepted A data labels b'"
  by (induction fs arbitrary: b) (auto split: option.splits dest: sampleLoop_accepted)

lemma searchBest_accepted:
  "searchBest A data labels = Some b \<Longrightarrow> accepted A data labels b"
proof -
  assume s: "searchBest A data labels = Some b"
  have init: "accepted A data labels (- 1, 0, 0)" by (simp add: accepted_def)
  from s obtain row0 :: "real list" where "featureLoop A data labels (map int [0..<length row0]) (- 1, 0, 0) = Some b"
    by (auto simp: searchBest_def split: option.splits)
  then show ?thesis using init by (rule featureLoop_accepted)
qed

lemma winning_split_shrinks:
  assumes ne: "labels \<noteq> []"
    and s: "searchBest A data labels = Some (f, t, g)" and f: "f \<noteq> - 1"
    and d: "splitData data labels f t = Some (ld, ll, rd, rl)"
  shows "length ll < length labels \<and> length rl < length labels"
proof -
  have sl: "splitLabels data labels f t = Some (ll, rl)"
    using d by (rule splitData_splitLabels)
  from searchBest_accepted [OF s] f sl
  have g: "0 < calculateInformationGain A labels ll rl"
    by (auto simp: accepted_def)
  have len: "length ll + length rl = length data" "length data \<le> length labels"
    using splitLabels_length [OF sl] by auto
  show ?thesis
  proof (cases "length data < length labels")
    case True
    with len show ?thesis by simp
  next
    case False
    with len have eq: "take (length data) labels = labels" by simp
    have "rl \<noteq> []"
    proof
      assume "rl = []"
      with sl eq have "ll = labels" by (auto dest: splitLabels_right_empty)
      with g \<open>rl = []\<close> ne show False by (simp add: gain_right_empty)
    qed
    moreover have "ll \<noteq> []"
    proof
      assume "ll = []"
      with sl eq have "rl = labels" by (auto dest: splitLabels_left_empty)
      with g \<open>ll = []\<close> ne show False by (simp add: gain_left_empty)
    qed
    ultimately show ?thesis using len False by (cases ll; cases rl) auto
  qed
qed

section \<open>Building the tree\<close>

text \<open>The assignments \<^verbatim>\<open>node->left = leftNode\<close> and \<^verbatim>\<open>node->right = rightNode\<close>.\<close>

fun setLeft :: "Node \<Rightarrow> Node option \<Rightarrow> Node" where
  "setLeft (Node il fi th lb l r) p = Node il fi th lb p r"

fun setRight :: "Node \<Rightarrow> Node option \<Rightarrow> Node" where
  "setRight (Node il fi th lb l r) p = Node il fi th lb l p"

text \<open>
  \<^verbatim>\<open>buildTree\<close>. An out-of-range read anywhere ends the call with \<open>Inl OutOfBounds\<close>;
  the left subtree is built before the right one.
\<close>

function buildTree :: "arith \<Rightarrow> real list list \<Rightarrow> int list \<Rightarrow> error + Node" where
  "buildTree A data labels =
     (if isPure labels
      then (case nth_opt labels 0 of
              None \<Rightarrow> Inl OutOfBounds
            | Some l0 \<Rightarrow> Inr (leafNode l0))
      else
        (case searchBest A data labels of
           None \<Rightarrow> Inl OutOfBounds
         | Some (bestFeature, bestThreshold, bestInfoGain) \<Rightarrow>
             if bestFeature = - 1
             then (case majorityLabel labels of
                     None \<Rightarrow> Inl OutOfBounds
                   | Some m \<Rightarrow> Inr (leafNode m))
             else
               (case splitData data labels bestFeature bestThreshold of
                  None \<Rightarrow> Inl OutOfBounds
                | Some (leftData, leftLabels, rightData, rightLabels) \<Rightarrow>
                    (case buildTree A leftData leftLabels of
                       Inl e \<Rightarrow> Inl e
                     | Inr leftNode \<Rightarrow>
                         (case buildTree A rightData rightLabels of
                            Inl e \<Rightarrow> Inl e
                          | Inr rightNode \<Rightarrow>
                              Inr (setRight (setLeft (mkNode False (- 1) bestFeature bestThreshold)
                                     (Some leftNode)) (Some rightNode)))))))"
  by pat_completeness auto
termination
proof (relation "measure (\<lambda>(A, data, labels). length labels)", goal_cases)
  case 1
  show ?case by simp
next
  case (2 A data labels b f r t g s ld r1 ll r2 rd rl)
  then have "searchBest A data labels = Some (f, t, g)" "splitData data labels f t = Some (ld, ll, rd, rl)"
    by simp_all
  from winning_split_shrinks [OF not_pure_nonempty [OF 2(1)] this(1) \<open>f \<noteq> - 1\<close> this(2)]
  show ?case by simp
next
  case (3 A data labels b f r t g s ld r1 ll r2 rd rl leftNode)
  then have "searchBest A data labels = Some (f, t, g)" "splitData data labels f t = Some (ld, ll, rd, rl)"
    by simp_all
  from winning_split_shrinks [OF not_pure_nonempty [OF 3(1)] this(1) \<open>f \<noteq> - 1\<close> this(2)] 3
  show ?case by auto
qed

declare buildTree.simps [simp del]

section \<open>Prediction\<close>

text \<open>
  \<^verbatim>\<open>predictRecursive\<close>: \<^verbatim>\<open>node->isLeaf\<close> dereferences the pointer, and
  \<^verbatim>\<open>sample[node->featureIndex]\<close> is read only at an internal node.
\<close>

function predictRecursive :: "Node option \<Rightarrow> real list \<Rightarrow> error + int" where
  "predictRecursive None sample = Inl NullPointer"
| "predictRecursive (Some (Node il fi th lb l r)) sample =
     (if il then Inr lb
      else (case nth_opt sample fi of
              None \<Rightarrow> Inl OutOfBounds
            | Some v \<Rightarrow>
                if v \<le> th then predictRecursive l sample
                else predictRecursive r sample))"
  by pat_completeness auto
termination
  by (relation "measure (\<lambda>(p, sample). size_option size p)") auto

text \<open>
  \<^verbatim>\<open>fit\<close> stores the pointer that \<^verbatim>\<open>buildTree\<close> returns (\<^verbatim>\<open>std::make_shared\<close> never
  gives a null pointer); \<^verbatim>\<open>predict\<close> starts at \<^verbatim>\<open>root\<close>.
\<close>

definition fit :: "arith \<Rightarrow> DecisionTree \<Rightarrow> real list list \<Rightarrow> int list \<Rightarrow> error + DecisionTree" where
  "fit A dt data labels =
     (case buildTree A data labels of
        Inl e \<Rightarrow> Inl e
      | Inr node \<Rightarrow> Inr (dt\<lparr>root := Some node\<rparr>))"

definition predict :: "DecisionTree \<Rightarrow> real list \<Rightarrow> error + int" where
  "predict dt sample = predictRecursive (root dt) sample"

text \<open>
  The number of threshold comparisons \<^verbatim>\<open>sample[node->featureIndex] <= node->threshold\<close>
  that \<^verbatim>\<open>predictRecursive\<close> evaluates: the same recursion, counting.
\<close>

function T_predictRecursive :: "Node option \<Rightarrow> real list \<Rightarrow> nat" where
  "T_predictRecursive None sample = 0"
| "T_predictRecursive (Some (Node il fi th lb l r)) sample =
     (if il then 0
      else (case nth_opt sample fi of
              None \<Rightarrow> 0
            | Some v \<Rightarrow>
                if v \<le> th then Suc (T_predictRecursive l sample)
                else Suc (T_predictRecursive r sample)))"
  by pat_completeness auto
termination
  by (relation "measure (\<lambda>(p, sample). size_option size p)") auto

section \<open>Notions of the specification\<close>

text \<open>
  The precondition of \<^verbatim>\<open>fit\<close>: a non-empty dataset whose rows all have the length of the
  first one, and one label per row.
\<close>

definition fit_pre :: "real list list \<Rightarrow> int list \<Rightarrow> bool" where
  "fit_pre data labels \<longleftrightarrow>
     data \<noteq> [] \<and> length labels = length data \<and>
     list_all (\<lambda>row. length (hd data) = length row) data"

text \<open>
  A well-formed tree: a leaf has no children, an internal node has two, both well-formed.
\<close>

fun wellFormed :: "Node \<Rightarrow> bool" where
  "wellFormed (Node il fi th lb l r) =
     (if il then l = None \<and> r = None
      else (case l of
              None \<Rightarrow> False
            | Some lnode \<Rightarrow>
                (case r of
                   None \<Rightarrow> False
                 | Some rnode \<Rightarrow> wellFormed lnode \<and> wellFormed rnode)))"

text \<open>The depth of a tree: the number of internal nodes on its longest path.\<close>

fun depth :: "Node \<Rightarrow> nat" where
  "depth (Node il fi th lb l r) =
     (if il then 0
      else Suc (max (case l of None \<Rightarrow> 0 | Some lnode \<Rightarrow> depth lnode)
                    (case r of None \<Rightarrow> 0 | Some rnode \<Rightarrow> depth rnode)))"

text \<open>
  One step of the recursion of \<^verbatim>\<open>buildTree\<close>: the call on \<open>(data, labels)\<close> reaches line 83
  and invokes itself on the left or on the right partition.
\<close>

inductive invokes ::
  "arith \<Rightarrow> real list list \<times> int list \<Rightarrow> real list list \<times> int list \<Rightarrow> bool" for A where
  invokes_left:
    "\<not> isPure labels \<Longrightarrow> searchBest A data labels = Some (f, t, g) \<Longrightarrow> f \<noteq> - 1 \<Longrightarrow>
     splitData data labels f t = Some (ld, ll, rd, rl) \<Longrightarrow> invokes A (data, labels) (ld, ll)"
| invokes_right:
    "\<not> isPure labels \<Longrightarrow> searchBest A data labels = Some (f, t, g) \<Longrightarrow> f \<noteq> - 1 \<Longrightarrow>
     splitData data labels f t = Some (ld, ll, rd, rl) \<Longrightarrow> invokes A (data, labels) (rd, rl)"

code_pred invokes .


text \<open>Rows of one length, wide enough for a feature index.\<close>

definition rows_of_width :: "nat \<Rightarrow> real list list \<Rightarrow> bool" where
  "rows_of_width n data = list_all (\<lambda>row. length row = n) data"

text \<open>Every internal node tests a feature index below \<open>k\<close>.\<close>

fun featuresBelow :: "nat \<Rightarrow> Node \<Rightarrow> bool" where
  "featuresBelow k (Node il fi th lb l r) =
     (if il then True
      else 0 \<le> fi \<and> nat fi < k \<and>
           (case l of None \<Rightarrow> True | Some lnode \<Rightarrow> featuresBelow k lnode) \<and>
           (case r of None \<Rightarrow> True | Some rnode \<Rightarrow> featuresBelow k rnode))"

text \<open>
  The traversal in the words of the specification: from a node, the walk ends at a leaf, and
  at an internal node it goes to the left child when \<open>sample[featureIndex] \<le> threshold\<close>
  and to the right child otherwise.
\<close>

inductive descends :: "real list \<Rightarrow> Node \<Rightarrow> Node \<Rightarrow> bool" for sample where
  at_leaf: "isLeaf n \<Longrightarrow> descends sample n n"
| go_left:
    "\<not> isLeaf n \<Longrightarrow> nth_opt sample (featureIndex n) = Some v \<Longrightarrow> v \<le> threshold n \<Longrightarrow>
     left n = Some c \<Longrightarrow> descends sample c m \<Longrightarrow> descends sample n m"
| go_right:
    "\<not> isLeaf n \<Longrightarrow> nth_opt sample (featureIndex n) = Some v \<Longrightarrow> \<not> v \<le> threshold n \<Longrightarrow>
     right n = Some c \<Longrightarrow> descends sample c m \<Longrightarrow> descends sample n m"

code_pred descends .

text \<open>
  The precondition of \<^verbatim>\<open>predict\<close> in the words of the specification: \<open>sample[i]\<close> is
  defined for every feature index \<open>i\<close> referenced by a decision node on the traversal path.
\<close>

fun pathDefined :: "real list \<Rightarrow> Node \<Rightarrow> bool" where
  "pathDefined sample (Node il fi th lb l r) =
     (if il then True
      else (case nth_opt sample fi of
              None \<Rightarrow> False
            | Some v \<Rightarrow>
                if v \<le> th then (case l of None \<Rightarrow> True | Some lnode \<Rightarrow> pathDefined sample lnode)
                else (case r of None \<Rightarrow> True | Some rnode \<Rightarrow> pathDefined sample rnode)))"


text \<open>
  What the map holds after counting the labels \<open>ls\<close>: the labels that occur, as keys in
  strictly ascending order, and under each key the number of its occurrences.
\<close>

definition counts_of :: "(int \<times> int) list \<Rightarrow> int list \<Rightarrow> bool" where
  "counts_of m ls \<longleftrightarrow>
     sorted_wrt (<) (map fst m) \<and> set (map fst m) = set ls \<and>
     (\<forall>kc \<in> set m. snd kc = int (count_list ls (fst kc)))"





text \<open>
  The search in the words of the specification. The candidates, features outer and samples
  inner, each threshold being the value of the feature in a sample; the two label lists of a
  candidate; its information gain, which is the double that \<^verbatim>\<open>calculateInformationGain\<close>
  computes from these two lists in the arithmetic \<open>A\<close>.
\<close>

definition candidates :: "real list list \<Rightarrow> (int \<times> real) list" where
  "candidates data =
     concat (map (\<lambda>f. map (\<lambda>sample. (int f, sample ! f)) data) [0..<length (hd data)])"

definition leftLabelsOf :: "real list list \<Rightarrow> int list \<Rightarrow> int \<Rightarrow> real \<Rightarrow> int list" where
  "leftLabelsOf data labels f t =
     map snd (filter (\<lambda>rl. fst rl ! nat f \<le> t) (zip data labels))"

definition rightLabelsOf :: "real list list \<Rightarrow> int list \<Rightarrow> int \<Rightarrow> real \<Rightarrow> int list" where
  "rightLabelsOf data labels f t =
     map snd (filter (\<lambda>rl. t < fst rl ! nat f) (zip data labels))"

definition candidateGain :: "arith \<Rightarrow> real list list \<Rightarrow> int list \<Rightarrow> int \<times> real \<Rightarrow> real" where
  "candidateGain A data labels c =
     calculateInformationGain A labels
       (leftLabelsOf data labels (fst c) (snd c)) (rightLabelsOf data labels (fst c) (snd c))"

text \<open>A candidate replaces the incumbent only when its gain is strictly greater.\<close>

definition better :: "arith \<Rightarrow> real list list \<Rightarrow> int list \<Rightarrow> best \<Rightarrow> int \<times> real \<Rightarrow> best" where
  "better A data labels b c =
     (if candidateGain A data labels c > snd (snd b)
      then (fst c, snd c, candidateGain A data labels c) else b)"

section \<open>Pure label lists\<close>

lemma buildTree_pure:
  assumes "isPure labels" "labels \<noteq> []"
  shows "buildTree A data labels = Inr (leafNode (hd labels))"
proof -
  from assms(2) obtain l ls where "labels = l # ls" by (cases labels) auto
  then have "nth_opt labels 0 = Some (hd labels)" by (simp add: nth_opt_def)
  with assms(1) show ?thesis by (simp add: buildTree.simps [of A data labels])
qed

lemma predictRecursive_leaf: "predictRecursive (Some (leafNode l)) sample = Inr l"
  by (simp add: leafNode_def mkNode_def)

text \<open>
  Claim C2. For every non-empty label list in which every label equals the first one,
  \<^verbatim>\<open>buildTree\<close> returns a single leaf carrying that label, whatever the dataset is (the
  dataset is not read, so no split search takes place); \<^verbatim>\<open>fit\<close> stores that leaf as the
  root, and \<^verbatim>\<open>predict\<close> then returns the label for every sample.
\<close>

theorem pure_labels_single_leaf:
  assumes "labels \<noteq> []" and "\<forall>l \<in> set labels. l = hd labels"
  shows "buildTree A data labels = Inr (leafNode (hd labels)) \<and>
         fit A dt data labels = Inr (dt\<lparr>root := Some (leafNode (hd labels))\<rparr>) \<and>
         (\<forall>sample. predict (dt\<lparr>root := Some (leafNode (hd labels))\<rparr>) sample = Inr (hd labels))"
proof -
  have "isPure labels" using assms(2) by (simp add: isPure_iff)
  then have b: "buildTree A data labels = Inr (leafNode (hd labels))"
    using assms(1) by (rule buildTree_pure)
  then show ?thesis
    by (simp add: fit_def predict_def predictRecursive_leaf)
qed

theorem pure_labels_single_leaf_witness:
  "fit exact_arith \<lparr>root = None\<rparr> [[1], [2], [3]] [7, 7, 7] =
     Inr \<lparr>root = Some (Node True (- 1) 0 7 None None)\<rparr> \<and>
   predict \<lparr>root = Some (Node True (- 1) 0 7 None None)\<rparr> [2] = Inr 7"
  using pure_labels_single_leaf [of "[7, 7, 7]" exact_arith "[[1], [2], [3]]" "\<lparr>root = None\<rparr>"]
  by (simp add: leafNode_def mkNode_def)

section \<open>The recursion keeps the precondition\<close>

lemma fit_pre_nonempty: "fit_pre data labels \<Longrightarrow> data \<noteq> []"
  unfolding fit_pre_def by (rule conjunct1)

lemma fit_pre_length: "fit_pre data labels \<Longrightarrow> length labels = length data"
  unfolding fit_pre_def by blast

lemma fit_pre_width: "fit_pre data labels \<Longrightarrow> row \<in> set data \<Longrightarrow> length row = length (hd data)"
  unfolding fit_pre_def list_all_iff by (rule sym) blast

lemma fit_preI:
  assumes "data \<noteq> []" "length labels = length data"
    and "\<And>row. row \<in> set data \<Longrightarrow> length row = length (hd data)"
  shows "fit_pre data labels"
  unfolding fit_pre_def list_all_iff using assms(1,2) assms(3) [symmetric] by blast

lemma fit_pre_rows: "fit_pre data labels \<Longrightarrow> rows_of_width (length (hd data)) data"
  unfolding rows_of_width_def list_all_iff by (blast dest: fit_pre_width)

lemma splitLabels_defined:
  "rows_of_width n data \<Longrightarrow> length data \<le> length labels \<Longrightarrow> 0 \<le> f \<Longrightarrow> nat f < n \<Longrightarrow>
     \<exists>L R. splitLabels data labels f t = Some (L, R)"
proof (induction data arbitrary: labels)
  case Nil
  show ?case by simp
next
  case (Cons row data)
  from Cons.prems(2) obtain l ls where labels: "labels = l # ls" by (cases labels) auto
  have "rows_of_width n data" "length data \<le> length ls"
    using Cons.prems labels by (simp_all add: rows_of_width_def)
  from Cons.IH [OF this Cons.prems(3,4)] obtain L R where "splitLabels data ls f t = Some (L, R)"
    by blast
  moreover have "nth_opt row f = Some (row ! nat f)"
    using Cons.prems by (simp add: rows_of_width_def nth_opt_def)
  ultimately show ?case using labels by simp
qed

lemma splitLabels_splitData:
  "splitLabels data labels f t = Some (L, R) \<Longrightarrow>
     \<exists>ld rd. splitData data labels f t = Some (ld, L, rd, R)"
proof (induction data arbitrary: labels L R)
  case Nil
  then show ?case by simp
next
  case (Cons row data)
  from Cons.prems obtain l ls where labels: "labels = l # ls" by (cases labels) auto
  from Cons.prems labels obtain v L' R' where
    v: "nth_opt row f = Some v" and s: "splitLabels data ls f t = Some (L', R')"
    by (auto split: option.splits)
  from Cons.IH [OF s] obtain ld rd where d: "splitData data ls f t = Some (ld, L', rd, R')"
    by blast
  from Cons.prems labels v s d show ?case by (cases "v \<le> t") auto
qed

lemma splitData_Cons:
  assumes "splitData (row # data) labels f t = Some (ld, ll, rd, rl)"
  obtains l ls v ld' ll' rd' rl' where
    "labels = l # ls" "nth_opt row f = Some v"
    "splitData data ls f t = Some (ld', ll', rd', rl')"
    "v \<le> t \<Longrightarrow> ld = row # ld' \<and> ll = l # ll' \<and> rd = rd' \<and> rl = rl'"
    "\<not> v \<le> t \<Longrightarrow> ld = ld' \<and> ll = ll' \<and> rd = row # rd' \<and> rl = l # rl'"
proof -
  from assms obtain l ls where labels: "labels = l # ls" by (cases labels) auto
  from assms labels obtain v where v: "nth_opt row f = Some v" by (auto split: option.splits)
  from assms labels v obtain ld' ll' rd' rl' where d: "splitData data ls f t = Some (ld', ll', rd', rl')"
    by (auto split: option.splits)
  show thesis
    by (rule that [OF labels v d]) (use assms labels v d in auto)
qed

lemma splitData_subset:
  "splitData data labels f t = Some (ld, ll, rd, rl) \<Longrightarrow> set ld \<subseteq> set data \<and> set rd \<subseteq> set data"
proof (induction data arbitrary: labels ld ll rd rl)
  case Nil
  then show ?case by simp
next
  case (Cons row data)
  from Cons.prems show ?case
  proof (rule splitData_Cons)
    fix l ls v ld' ll' rd' rl'
    assume d: "splitData data ls f t = Some (ld', ll', rd', rl')"
      and a: "v \<le> t \<Longrightarrow> ld = row # ld' \<and> ll = l # ll' \<and> rd = rd' \<and> rl = rl'"
      and b: "\<not> v \<le> t \<Longrightarrow> ld = ld' \<and> ll = ll' \<and> rd = row # rd' \<and> rl = l # rl'"
    from Cons.IH [OF d] a b show ?thesis by (cases "v \<le> t") auto
  qed
qed

lemma splitData_sides:
  "splitData data labels f t = Some (ld, ll, rd, rl) \<Longrightarrow>
     (\<forall>row \<in> set ld. \<exists>v. nth_opt row f = Some v \<and> v \<le> t) \<and>
     (\<forall>row \<in> set rd. \<exists>v. nth_opt row f = Some v \<and> t < v)"
proof (induction data arbitrary: labels ld ll rd rl)
  case Nil
  then show ?case by simp
next
  case (Cons row data)
  from Cons.prems show ?case
  proof (rule splitData_Cons)
    fix l ls v ld' ll' rd' rl'
    assume d: "splitData data ls f t = Some (ld', ll', rd', rl')"
      and v: "nth_opt row f = Some v"
      and a: "v \<le> t \<Longrightarrow> ld = row # ld' \<and> ll = l # ll' \<and> rd = rd' \<and> rl = rl'"
      and b: "\<not> v \<le> t \<Longrightarrow> ld = ld' \<and> ll = ll' \<and> rd = row # rd' \<and> rl = l # rl'"
    from Cons.IH [OF d] a b v show ?thesis by (cases "v \<le> t") auto
  qed
qed

lemma tryCandidate_defined:
  assumes "rows_of_width n data" "length data \<le> length labels" "0 \<le> f" "nat f < n" "length s = n"
  shows "tryCandidate A data labels f b s \<noteq> None"
proof -
  have "nth_opt s f = Some (s ! nat f)" using assms by (simp add: nth_opt_def)
  moreover obtain L R where "splitLabels data labels f (s ! nat f) = Some (L, R)"
    using splitLabels_defined [OF assms(1-4)] by blast
  ultimately show ?thesis by (simp add: tryCandidate_def Let_def del: not_None_eq)
qed

lemma sampleLoop_defined:
  assumes "rows_of_width n data" "length data \<le> length labels" "0 \<le> f" "nat f < n"
  shows "rows_of_width n ss \<Longrightarrow> sampleLoop A data labels f ss b \<noteq> None"
proof (induction ss arbitrary: b)
  case Nil
  show ?case by simp
next
  case (Cons s ss)
  then have "length s = n" "rows_of_width n ss" by (simp_all add: rows_of_width_def)
  from tryCandidate_defined [OF assms this(1)] obtain b1 where "tryCandidate A data labels f b s = Some b1"
    by blast
  with Cons.IH [OF \<open>rows_of_width n ss\<close>, of b1] show ?case by simp
qed

lemma featureLoop_defined:
  assumes "rows_of_width n data" "length data \<le> length labels"
  shows "\<forall>f \<in> set fs. 0 \<le> f \<and> nat f < n \<Longrightarrow> featureLoop A data labels fs b \<noteq> None"
proof (induction fs arbitrary: b)
  case Nil
  show ?case by simp
next
  case (Cons f fs)
  then have "0 \<le> f" "nat f < n" by simp_all
  from sampleLoop_defined [OF assms this assms(1)] obtain b1 where "sampleLoop A data labels f data b = Some b1"
    by blast
  with Cons.IH [of b1] Cons.prems show ?case by simp
qed

lemma searchBest_defined:
  assumes "fit_pre data labels"
  shows "searchBest A data labels \<noteq> None"
proof -
  from assms obtain row0 rest where d: "data = row0 # rest" by (cases data) (auto dest: fit_pre_nonempty)
  have r: "rows_of_width (length row0) data" using fit_pre_rows [OF assms] d by simp
  have l: "length data \<le> length labels" using fit_pre_length [OF assms] by simp
  have "featureLoop A data labels (map int [0..<length row0]) (- 1, 0, 0) \<noteq> None"
    by (rule featureLoop_defined [OF r l]) auto
  then show ?thesis using d by (simp add: searchBest_def nth_opt_def)
qed

lemma winning_split_pre:
  assumes pre: "fit_pre data labels"
    and s: "searchBest A data labels = Some (f, t, g)" and f: "f \<noteq> - 1"
    and d: "splitData data labels f t = Some (ld, ll, rd, rl)"
  shows "fit_pre ld ll \<and> fit_pre rd rl"
proof -
  have sl: "splitLabels data labels f t = Some (ll, rl)"
    using d by (rule splitData_splitLabels)
  have len: "length ll + length rl = length labels"
    using splitLabels_length [OF sl] fit_pre_length [OF pre] by simp
  have "labels \<noteq> []" using fit_pre_nonempty [OF pre] fit_pre_length [OF pre] by auto
  from winning_split_shrinks [OF this s f d] len have ne: "ll \<noteq> []" "rl \<noteq> []" by auto
  have lens: "length ld = length ll" "length rd = length rl"
    using splitData_lengths [OF d] by simp_all
  with ne have ne': "ld \<noteq> []" "rd \<noteq> []" by auto
  have sub: "set ld \<subseteq> set data" "set rd \<subseteq> set data"
    using splitData_subset [OF d] by simp_all
  have w: "\<And>row. row \<in> set data \<Longrightarrow> length row = length (hd data)"
    using pre by (rule fit_pre_width)
  have hl: "hd ld \<in> set data" using ne'(1) sub(1) hd_in_set by blast
  have hr: "hd rd \<in> set data" using ne'(2) sub(2) hd_in_set by blast
  have wl: "length row = length (hd ld)" if "row \<in> set ld" for row
  proof -
    from that sub(1) have "row \<in> set data" by blast
    then show ?thesis using w [of row] w [OF hl] by simp
  qed
  have wr: "length row = length (hd rd)" if "row \<in> set rd" for row
  proof -
    from that sub(2) have "row \<in> set data" by blast
    then show ?thesis using w [of row] w [OF hr] by simp
  qed
  have "fit_pre ld ll"
    by (rule fit_preI [OF ne'(1) lens(1) [symmetric]]) (rule wl)
  moreover have "fit_pre rd rl"
    by (rule fit_preI [OF ne'(2) lens(2) [symmetric]]) (rule wr)
  ultimately show ?thesis by (rule conjI)
qed

lemma invokes_pre: "invokes A x y \<Longrightarrow> fit_pre (fst x) (snd x) \<Longrightarrow> fit_pre (fst y) (snd y)"
  by (induction rule: invokes.induct) (auto dest: winning_split_pre)

lemma invokes_star_pre:
  "(invokes A)\<^sup>*\<^sup>* x y \<Longrightarrow> fit_pre (fst x) (snd x) \<Longrightarrow> fit_pre (fst y) (snd y)"
  by (induction rule: rtranclp_induct) (auto dest: invokes_pre)

lemma buildTree_defined:
  "fit_pre data labels \<Longrightarrow> \<exists>node. buildTree A data labels = Inr node"
proof (induction A data labels rule: buildTree.induct)
  case (1 A data labels)
  show ?case
  proof (cases "isPure labels")
    case True
    moreover have "labels \<noteq> []" using fit_pre_nonempty [OF "1.prems"] fit_pre_length [OF "1.prems"] by auto
    ultimately show ?thesis using buildTree_pure by blast
  next
    case False
    from searchBest_defined [OF "1.prems", of A] obtain f t g where s: "searchBest A data labels = Some (f, t, g)"
      by (cases "searchBest A data labels") auto
    show ?thesis
    proof (cases "f = - 1")
      case True
      have "labels \<noteq> []" using fit_pre_nonempty [OF "1.prems"] fit_pre_length [OF "1.prems"] by auto
      then have "nth_opt labels 0 \<noteq> None" by (cases labels) (simp_all add: nth_opt_def)
      then obtain m where "majorityLabel labels = Some m" by (auto simp: majorityLabel_def)
      with False s True show ?thesis by (simp add: buildTree.simps [of A data labels])
    next
      case nf: False
      from searchBest_accepted [OF s] nf obtain L R where "splitLabels data labels f t = Some (L, R)"
        by (auto simp: accepted_def)
      from splitLabels_splitData [OF this] obtain ld rd where d: "splitData data labels f t = Some (ld, L, rd, R)"
        by blast
      from winning_split_pre [OF "1.prems" s nf d] have p: "fit_pre ld L" "fit_pre rd R" by simp_all
      from "1.IH"(1) [OF False s refl refl nf d refl refl refl p(1)]
      obtain lnode where ln: "buildTree A ld L = Inr lnode" by blast
      from "1.IH"(2) [OF False s refl refl nf d refl refl refl ln p(2)]
      obtain rnode where rn: "buildTree A rd R = Inr rnode" by blast
      from False s nf d ln rn show ?thesis by (simp add: buildTree.simps [of A data labels])
    qed
  qed
qed

section \<open>Shape of the tree and traversal\<close>

lemma descends_unique: "descends sample n m \<Longrightarrow> descends sample n m' \<Longrightarrow> m' = m"
proof (induction arbitrary: m' rule: descends.induct)
  case (at_leaf n)
  from at_leaf.prems show ?case
  proof cases
    case at_leaf
    then show ?thesis by simp
  next
    case (go_left v c)
    with at_leaf.hyps show ?thesis by simp
  next
    case (go_right v c)
    with at_leaf.hyps show ?thesis by simp
  qed
next
  case (go_left n v c m)
  from go_left.prems show ?case
  proof cases
    case at_leaf
    with go_left.hyps(1) show ?thesis by simp
  next
    case (go_left v' c')
    from go_left(4) go_left.hyps(4) have "c' = c" by simp
    with go_left(5) show ?thesis by (simp add: go_left.IH)
  next
    case (go_right v' c')
    from go_right(2) go_left.hyps(2) have "v' = v" by simp
    with go_right(3) go_left.hyps(3) show ?thesis by simp
  qed
next
  case (go_right n v c m)
  from go_right.prems show ?case
  proof cases
    case at_leaf
    with go_right.hyps(1) show ?thesis by simp
  next
    case (go_left v' c')
    from go_left(2) go_right.hyps(2) have "v' = v" by simp
    with go_left(3) go_right.hyps(3) show ?thesis by simp
  next
    case (go_right v' c')
    from go_right(4) go_right.hyps(4) have "c' = c" by simp
    with go_right(5) show ?thesis by (simp add: go_right.IH)
  qed
qed

lemma predict_walk:
  "wellFormed n \<Longrightarrow> featuresBelow (length sample) n \<Longrightarrow>
     \<exists>leaf. descends sample n leaf \<and> isLeaf leaf \<and>
            predictRecursive (Some n) sample = Inr (label leaf) \<and>
            T_predictRecursive (Some n) sample \<le> depth n"
proof (induction n rule: wellFormed.induct)
  case (1 il fi th lb l r)
  show ?case
  proof (cases il)
    case True
    then have "descends sample (Node il fi th lb l r) (Node il fi th lb l r)"
      by (simp add: at_leaf)
    with True show ?thesis by auto
  next
    case False
    with "1.prems"(1) obtain lnode rnode where
      lr: "l = Some lnode" "r = Some rnode" and wf: "wellFormed lnode" "wellFormed rnode"
      by (auto split: option.splits)
    from False "1.prems"(2) lr have
      fi: "0 \<le> fi" "nat fi < length sample" and fb: "featuresBelow (length sample) lnode"
        "featuresBelow (length sample) rnode"
      by simp_all
    from fi have v: "nth_opt sample fi = Some (sample ! nat fi)" by (simp add: nth_opt_def)
    show ?thesis
    proof (cases "sample ! nat fi \<le> th")
      case True
      from "1.IH"(1) [OF False lr(1) lr(2) wf(1) fb(1)] obtain leaf where
        leaf: "descends sample lnode leaf" "isLeaf leaf"
          "predictRecursive (Some lnode) sample = Inr (label leaf)"
          "T_predictRecursive (Some lnode) sample \<le> depth lnode"
        by blast
      have "descends sample (Node il fi th lb l r) leaf"
        by (rule go_left [where v = "sample ! nat fi" and c = lnode])
           (use False v True lr leaf(1) in simp_all)
      with leaf False v True lr show ?thesis by auto
    next
      case gt: False
      from "1.IH"(2) [OF False lr(1) lr(2) wf(2) fb(2)] obtain leaf where
        leaf: "descends sample rnode leaf" "isLeaf leaf"
          "predictRecursive (Some rnode) sample = Inr (label leaf)"
          "T_predictRecursive (Some rnode) sample \<le> depth rnode"
        by blast
      have "descends sample (Node il fi th lb l r) leaf"
        by (rule go_right [where v = "sample ! nat fi" and c = rnode])
           (use False v gt lr leaf(1) in simp_all)
      with leaf False v gt lr show ?thesis by auto
    qed
  qed
qed

lemma wellFormed_no_null:
  "wellFormed n \<Longrightarrow> predictRecursive (Some n) sample \<noteq> Inl NullPointer"
proof (induction n rule: wellFormed.induct)
  case (1 il fi th lb l r)
  show ?case
  proof (cases il)
    case True
    then show ?thesis by simp
  next
    case False
    with "1.prems" obtain lnode rnode where
      lr: "l = Some lnode" "r = Some rnode" and wf: "wellFormed lnode" "wellFormed rnode"
      by (auto split: option.splits)
    from "1.IH"(1) [OF False lr wf(1)] "1.IH"(2) [OF False lr wf(2)] False lr
    show ?thesis by (auto split: option.splits)
  qed
qed

lemma buildTree_cases:
  assumes "buildTree A data labels = Inr node"
  obtains (pure) l0 where "isPure labels" "nth_opt labels 0 = Some l0" "node = leafNode l0"
  | (majority) t g m where "\<not> isPure labels" "searchBest A data labels = Some (- 1, t, g)"
      "majorityLabel labels = Some m" "node = leafNode m"
  | (split) f t g ld ll rd rl lnode rnode where "\<not> isPure labels"
      "searchBest A data labels = Some (f, t, g)" "f \<noteq> - 1"
      "splitData data labels f t = Some (ld, ll, rd, rl)"
      "buildTree A ld ll = Inr lnode" "buildTree A rd rl = Inr rnode"
      "node = Node False f t (- 1) (Some lnode) (Some rnode)"
  using assms
  by (subst (asm) buildTree.simps)
     (auto simp: mkNode_def split: if_splits option.splits prod.splits sum.splits)

lemma wellFormed_leafNode: "wellFormed (leafNode l)"
  by (simp add: leafNode_def mkNode_def)

lemma buildTree_wellFormed: "buildTree A data labels = Inr node \<Longrightarrow> wellFormed node"
proof (induction A data labels arbitrary: node rule: buildTree.induct)
  case (1 A data labels)
  from "1.prems" show ?case
  proof (cases rule: buildTree_cases)
    case (pure l0)
    then show ?thesis by (simp add: wellFormed_leafNode)
  next
    case (majority t g m)
    then show ?thesis by (simp add: wellFormed_leafNode)
  next
    case (split f t g ld ll rd rl lnode rnode)
    from "1.IH"(1) [OF split(1,2) refl refl split(3,4) refl refl refl split(5)]
    have "wellFormed lnode" .
    moreover from "1.IH"(2) [OF split(1,2) refl refl split(3,4) refl refl refl split(5) split(6)]
    have "wellFormed rnode" .
    ultimately show ?thesis using split(7) by simp
  qed
qed

section \<open>The boundary sample scenario, evaluated\<close>

text \<open>
  The search on \<open>data = [[1], [2], [3], [4]]\<close>, \<open>labels = [0, 0, 1, 1]\<close>, candidate by candidate,
  in arithmetic without rounding.
\<close>

lemma log2_half: "log 2 (1 / 2) = - 1"
  by (simp add: log_divide)

lemma log2_third: "log 2 (1 / 3) = - log 2 3"
  by (simp add: log_divide)

lemma log2_two_thirds: "log 2 (2 / 3) = 1 - log 2 3"
  by (simp add: log_divide)

lemma log2_3_bounds: "1 < log 2 3 \<and> log 2 3 < 2"
proof
  have "(2::real) powr 1 < 3" by simp
  then show "1 < log 2 3" by (simp add: less_log_iff)
  have "(3::real) < 2 powr 2" by simp
  then show "log 2 3 < 2" by (simp add: log_less_iff)
qed

lemma labelCounts_0011: "labelCounts [0, 0, 1, 1] = [(0, 2), (1, 2)]"
  by (simp add: labelCounts_def)

lemma entropy_0011: "calculateEntropy exact_arith [0, 0, 1, 1] = 1"
  by (simp add: calculateEntropy_def labelCounts_def entropyStep_def Let_def log2_half)

lemma entropy_0: "calculateEntropy exact_arith [0] = 0"
  by (simp add: calculateEntropy_def labelCounts_def entropyStep_def Let_def)

lemma entropy_00: "calculateEntropy exact_arith [0, 0] = 0"
  by (simp add: calculateEntropy_def labelCounts_def entropyStep_def Let_def)

lemma entropy_1: "calculateEntropy exact_arith [1] = 0"
  by (simp add: calculateEntropy_def labelCounts_def entropyStep_def Let_def)

lemma entropy_11: "calculateEntropy exact_arith [1, 1] = 0"
  by (simp add: calculateEntropy_def labelCounts_def entropyStep_def Let_def)

lemma entropy_011: "calculateEntropy exact_arith [0, 1, 1] = log 2 3 - 2 / 3"
  by (simp add: calculateEntropy_def labelCounts_def entropyStep_def Let_def log2_third log2_two_thirds
      algebra_simps)

lemma entropy_001: "calculateEntropy exact_arith [0, 0, 1] = log 2 3 - 2 / 3"
  by (simp add: calculateEntropy_def labelCounts_def entropyStep_def Let_def log2_third log2_two_thirds
      algebra_simps)

lemma gain_0_011: "calculateInformationGain exact_arith [0, 0, 1, 1] [0] [0, 1, 1] = 3 / 2 - 3 / 4 * log 2 3"
  by (simp add: calculateInformationGain_def Let_def entropy_0011 entropy_0 entropy_011 field_simps)

lemma gain_00_11: "calculateInformationGain exact_arith [0, 0, 1, 1] [0, 0] [1, 1] = 1"
  by (simp add: calculateInformationGain_def Let_def entropy_0011 entropy_00 entropy_11)

lemma gain_001_1: "calculateInformationGain exact_arith [0, 0, 1, 1] [0, 0, 1] [1] = 3 / 2 - 3 / 4 * log 2 3"
  by (simp add: calculateInformationGain_def Let_def entropy_0011 entropy_1 entropy_001 field_simps)

lemma gain_0_011_bounds:
  "0 < calculateInformationGain exact_arith [0, 0, 1, 1] [0] [0, 1, 1] \<and>
   calculateInformationGain exact_arith [0, 0, 1, 1] [0] [0, 1, 1] < 1"
  unfolding gain_0_011 using log2_3_bounds by argo

lemma gain_001_1_bound: "calculateInformationGain exact_arith [0, 0, 1, 1] [0, 0, 1] [1] < 1"
  unfolding gain_001_1 using log2_3_bounds by argo

lemma try_1: "tryCandidate exact_arith [[1], [2], [3], [4]] [0, 0, 1, 1] 0 (- 1, 0, 0) [1] =
    Some (0, 1, calculateInformationGain exact_arith [0, 0, 1, 1] [0] [0, 1, 1])"
  using gain_0_011_bounds by (simp add: tryCandidate_def nth_opt_def)

lemma try_2:
  "tryCandidate exact_arith [[1], [2], [3], [4]] [0, 0, 1, 1] 0
     (0, 1, calculateInformationGain exact_arith [0, 0, 1, 1] [0] [0, 1, 1]) [2] = Some (0, 2, 1)"
  using gain_0_011_bounds by (simp add: tryCandidate_def nth_opt_def gain_00_11)

lemma try_3: "tryCandidate exact_arith [[1], [2], [3], [4]] [0, 0, 1, 1] 0 (0, 2, 1) [3] = Some (0, 2, 1)"
  using gain_001_1_bound by (simp add: tryCandidate_def nth_opt_def)

lemma try_4: "tryCandidate exact_arith [[1], [2], [3], [4]] [0, 0, 1, 1] 0 (0, 2, 1) [4] = Some (0, 2, 1)"
  by (simp add: tryCandidate_def nth_opt_def gain_right_empty)

lemma searchBest_boundary: "searchBest exact_arith [[1], [2], [3], [4]] [0, 0, 1, 1] = Some (0, 2, 1)"
  by (simp add: searchBest_def nth_opt_def try_1 try_2 try_3 try_4)

lemma not_pure_0011: "\<not> isPure [0, 0, 1, 1]"
  by (simp add: isPure_iff)

lemma buildTree_boundary:
  "buildTree exact_arith [[1], [2], [3], [4]] [0, 0, 1, 1] =
     Inr (Node False 0 2 (- 1) (Some (leafNode 0)) (Some (leafNode 1)))"
proof -
  have l: "buildTree exact_arith [[1], [2]] [0, 0] = Inr (leafNode 0)"
    using buildTree_pure [of "[0, 0]" exact_arith "[[1], [2]]"] by (simp add: isPure_iff)
  have r: "buildTree exact_arith [[3], [4]] [1, 1] = Inr (leafNode 1)"
    using buildTree_pure [of "[1, 1]" exact_arith "[[3], [4]]"] by (simp add: isPure_iff)
  show ?thesis
    by (subst buildTree.simps)
       (simp add: not_pure_0011 searchBest_boundary nth_opt_def l r mkNode_def)
qed

section \<open>Claims about the shape of the tree and about prediction\<close>

lemma splitLabels_index:
  "splitLabels (row # data) labels f t = Some x \<Longrightarrow> 0 \<le> f \<and> nat f < length row"
  by (cases labels) (auto simp: nth_opt_def split: option.splits if_splits)

lemma winning_feature_in_range:
  assumes s: "searchBest A data labels = Some (f, t, g)" and f: "f \<noteq> - 1" and d: "data \<noteq> []"
  shows "0 \<le> f \<and> nat f < length (hd data)"
proof -
  from searchBest_accepted [OF s] f obtain L R where "splitLabels data labels f t = Some (L, R)"
    by (auto simp: accepted_def)
  with d show ?thesis by (cases data) (auto dest: splitLabels_index)
qed

lemma featuresBelow_leafNode: "featuresBelow k (leafNode l)"
  by (simp add: leafNode_def mkNode_def)

lemma buildTree_featuresBelow:
  "fit_pre data labels \<Longrightarrow> buildTree A data labels = Inr node \<Longrightarrow>
     featuresBelow (length (hd data)) node"
proof (induction A data labels arbitrary: node rule: buildTree.induct)
  case (1 A data labels)
  from "1.prems"(2) show ?case
  proof (cases rule: buildTree_cases)
    case (pure l0)
    then show ?thesis by (simp add: featuresBelow_leafNode)
  next
    case (majority t g m)
    then show ?thesis by (simp add: featuresBelow_leafNode)
  next
    case (split f t g ld ll rd rl lnode rnode)
    from winning_split_pre [OF "1.prems"(1) split(2,3,4)] have p: "fit_pre ld ll" "fit_pre rd rl"
      by simp_all
    have sub: "set ld \<subseteq> set data" "set rd \<subseteq> set data"
      using splitData_subset [OF split(4)] by simp_all
    have "hd ld \<in> set data" using fit_pre_nonempty [OF p(1)] sub(1) hd_in_set by blast
    then have wl: "length (hd ld) = length (hd data)" by (rule fit_pre_width [OF "1.prems"(1)])
    have "hd rd \<in> set data" using fit_pre_nonempty [OF p(2)] sub(2) hd_in_set by blast
    then have wr: "length (hd rd) = length (hd data)" by (rule fit_pre_width [OF "1.prems"(1)])
    from "1.IH"(1) [OF split(1,2) refl refl split(3,4) refl refl refl p(1) split(5)] wl
    have l: "featuresBelow (length (hd data)) lnode" by simp
    from "1.IH"(2) [OF split(1,2) refl refl split(3,4) refl refl refl split(5) p(2) split(6)] wr
    have r: "featuresBelow (length (hd data)) rnode" by simp
    from winning_feature_in_range [OF split(2,3) fit_pre_nonempty [OF "1.prems"(1)]] l r split(7)
    show ?thesis by simp
  qed
qed

text \<open>
  Claim C10. Every node returned by \<^verbatim>\<open>buildTree\<close> is well-formed: a leaf without children,
  or an internal node whose two children are non-null and are themselves the results of the
  two recursive invocations of \<^verbatim>\<open>buildTree\<close>. Hence the tree that \<^verbatim>\<open>fit\<close> stores is a
  strict binary tree, and \<^verbatim>\<open>predictRecursive\<close> on it never dereferences a null pointer.
\<close>

theorem buildTree_strict_binary_tree:
  assumes "buildTree A data labels = Inr node"
  shows "wellFormed node \<and>
         (isLeaf node \<and> left node = None \<and> right node = None \<or>
          (\<exists>ld ll rd rl lnode rnode.
             invokes A (data, labels) (ld, ll) \<and> invokes A (data, labels) (rd, rl) \<and>
             buildTree A ld ll = Inr lnode \<and> buildTree A rd rl = Inr rnode \<and>
             \<not> isLeaf node \<and> left node = Some lnode \<and> right node = Some rnode)) \<and>
         fit A dt data labels = Inr (dt\<lparr>root := Some node\<rparr>) \<and>
         (\<forall>sample. predictRecursive (Some node) sample \<noteq> Inl NullPointer) \<and>
         (\<forall>sample. predict (dt\<lparr>root := Some node\<rparr>) sample \<noteq> Inl NullPointer)"
proof -
  have wf: "wellFormed node" using assms by (rule buildTree_wellFormed)
  have shape: "isLeaf node \<and> left node = None \<and> right node = None \<or>
          (\<exists>ld ll rd rl lnode rnode.
             invokes A (data, labels) (ld, ll) \<and> invokes A (data, labels) (rd, rl) \<and>
             buildTree A ld ll = Inr lnode \<and> buildTree A rd rl = Inr rnode \<and>
             \<not> isLeaf node \<and> left node = Some lnode \<and> right node = Some rnode)"
    using assms
  proof (cases rule: buildTree_cases)
    case (pure l0)
    then show ?thesis by (simp add: leafNode_def mkNode_def)
  next
    case (majority t g m)
    then show ?thesis by (simp add: leafNode_def mkNode_def)
  next
    case (split f t g ld ll rd rl lnode rnode)
    have "invokes A (data, labels) (ld, ll)" by (rule invokes_left [OF split(1,2,3,4)])
    moreover have "invokes A (data, labels) (rd, rl)" by (rule invokes_right [OF split(1,2,3,4)])
    ultimately show ?thesis using split(5,6,7) by auto
  qed
  have nn: "predictRecursive (Some node) sample \<noteq> Inl NullPointer" for sample
    using wf by (rule wellFormed_no_null)
  have "fit A dt data labels = Inr (dt\<lparr>root := Some node\<rparr>)"
    using assms by (simp add: fit_def)
  with wf shape nn show ?thesis by (simp add: predict_def)
qed

theorem buildTree_strict_binary_tree_witness:
  "buildTree exact_arith [[1], [2], [3], [4]] [0, 0, 1, 1] =
     Inr (Node False 0 2 (- 1) (Some (leafNode 0)) (Some (leafNode 1))) \<and>
   wellFormed (Node False 0 2 (- 1) (Some (leafNode 0)) (Some (leafNode 1))) \<and>
   predictRecursive (Some (Node False 0 2 (- 1) (Some (leafNode 0)) (Some (leafNode 1)))) []
     \<noteq> Inl NullPointer"
  using buildTree_strict_binary_tree [OF buildTree_boundary, of "\<lparr>root = None\<rparr>"] buildTree_boundary
  by simp

lemma descends_predict:
  "descends sample n leaf \<Longrightarrow> isLeaf leaf \<and> predictRecursive (Some n) sample = Inr (label leaf)"
proof (induction rule: descends.induct)
  case (at_leaf n)
  then show ?case by (cases n) simp
next
  case (go_left n v c m)
  then show ?case by (cases n) simp
next
  case (go_right n v c m)
  then show ?case by (cases n) simp
qed

lemma pathDefined_descends:
  "wellFormed n \<Longrightarrow> pathDefined sample n \<Longrightarrow> \<exists>leaf. descends sample n leaf"
proof (induction n rule: wellFormed.induct)
  case (1 il fi th lb l r)
  show ?case
  proof (cases il)
    case True
    then have "descends sample (Node il fi th lb l r) (Node il fi th lb l r)"
      by (simp add: at_leaf)
    then show ?thesis by blast
  next
    case False
    with "1.prems"(1) obtain lnode rnode where
      lr: "l = Some lnode" "r = Some rnode" and wf: "wellFormed lnode" "wellFormed rnode"
      by (auto split: option.splits)
    have "nth_opt sample fi \<noteq> None"
    proof
      assume "nth_opt sample fi = None"
      with False "1.prems"(2) show False by simp
    qed
    then obtain v where v: "nth_opt sample fi = Some v" by blast
    show ?thesis
    proof (cases "v \<le> th")
      case True
      with False "1.prems"(2) v lr have "pathDefined sample lnode" by simp
      from "1.IH"(1) [OF False lr(1) lr(2) wf(1) this] obtain leaf where
        d: "descends sample lnode leaf" by blast
      have "descends sample (Node il fi th lb l r) leaf"
        by (rule go_left [where v = v and c = lnode]) (use False v True lr d in simp_all)
      then show ?thesis by blast
    next
      case gt: False
      with False "1.prems"(2) v lr have "pathDefined sample rnode" by simp
      from "1.IH"(2) [OF False lr(1) lr(2) wf(2) this] obtain leaf where
        d: "descends sample rnode leaf" by blast
      have "descends sample (Node il fi th lb l r) leaf"
        by (rule go_right [where v = v and c = rnode]) (use False v gt lr d in simp_all)
      then show ?thesis by blast
    qed
  qed
qed

lemma not_pathDefined_out_of_bounds:
  "wellFormed n \<Longrightarrow> \<not> pathDefined sample n \<Longrightarrow> predictRecursive (Some n) sample = Inl OutOfBounds"
proof (induction n rule: wellFormed.induct)
  case (1 il fi th lb l r)
  from "1.prems"(2) have nl: "\<not> il" by (cases il) simp_all
  with "1.prems"(1) obtain lnode rnode where
    lr: "l = Some lnode" "r = Some rnode" and wf: "wellFormed lnode" "wellFormed rnode"
    by (auto split: option.splits)
  show ?case
  proof (cases "nth_opt sample fi")
    case None
    with nl show ?thesis by simp
  next
    case (Some v)
    show ?thesis
    proof (cases "v \<le> th")
      case True
      with nl "1.prems"(2) Some lr have "\<not> pathDefined sample lnode" by simp
      from "1.IH"(1) [OF nl lr(1) lr(2) wf(1) this] nl Some True lr show ?thesis by simp
    next
      case False
      with nl "1.prems"(2) Some lr have "\<not> pathDefined sample rnode" by simp
      from "1.IH"(2) [OF nl lr(1) lr(2) wf(2) this] nl Some False lr show ?thesis by simp
    qed
  qed
qed

lemma comparisons_le_depth:
  "wellFormed n \<Longrightarrow> T_predictRecursive (Some n) sample \<le> depth n"
proof (induction n rule: wellFormed.induct)
  case (1 il fi th lb l r)
  show ?case
  proof (cases il)
    case True
    then show ?thesis by simp
  next
    case False
    with "1.prems" obtain lnode rnode where
      lr: "l = Some lnode" "r = Some rnode" and wf: "wellFormed lnode" "wellFormed rnode"
      by (auto split: option.splits)
    from "1.IH"(1) [OF False lr wf(1)] "1.IH"(2) [OF False lr wf(2)] False lr
    show ?thesis by (auto split: option.splits)
  qed
qed

lemma featuresBelow_pathDefined:
  "wellFormed n \<Longrightarrow> featuresBelow (length sample) n \<Longrightarrow> pathDefined sample n"
proof (induction n rule: wellFormed.induct)
  case (1 il fi th lb l r)
  show ?case
  proof (cases il)
    case True
    then show ?thesis by simp
  next
    case False
    with "1.prems"(1) obtain lnode rnode where
      lr: "l = Some lnode" "r = Some rnode" and wf: "wellFormed lnode" "wellFormed rnode"
      by (auto split: option.splits)
    from False "1.prems"(2) lr have
      fi: "0 \<le> fi" "nat fi < length sample" and fb: "featuresBelow (length sample) lnode"
        "featuresBelow (length sample) rnode"
      by simp_all
    from fi have v: "nth_opt sample fi = Some (sample ! nat fi)" by (simp add: nth_opt_def)
    from "1.IH"(1) [OF False lr wf(1) fb(1)] "1.IH"(2) [OF False lr wf(2) fb(2)] False v lr
    show ?thesis by simp
  qed
qed

text \<open>
  Claim C6. On a well-formed tree \<^verbatim>\<open>predict\<close> starts at the root, goes left when
  \<open>sample[featureIndex] \<le> threshold\<close> and right otherwise, and returns the label of the leaf
  where this walk ends, for every sample that defines the feature indices met on the walk
  (for any other sample the walk reads \<open>sample\<close> out of range). The leaf is unique, the
  labels \<^verbatim>\<open>predict\<close> can return are exactly the labels of leaves the walk reaches, and the
  number of comparisons made is at most the depth of the tree.
\<close>

theorem predict_descends_to_leaf:
  assumes "wellFormed n" and "root dt = Some n"
  shows "(pathDefined sample n \<longrightarrow>
            (\<exists>leaf. descends sample n leaf \<and> isLeaf leaf \<and>
               (\<forall>m. descends sample n m \<longrightarrow> m = leaf) \<and>
               predict dt sample = Inr (label leaf))) \<and>
         (\<not> pathDefined sample n \<longrightarrow> predict dt sample = Inl OutOfBounds) \<and>
         (\<forall>l. predict dt sample = Inr l \<longleftrightarrow> (\<exists>leaf. descends sample n leaf \<and> label leaf = l)) \<and>
         T_predictRecursive (root dt) sample \<le> depth n"
proof -
  have p: "predict dt sample = predictRecursive (Some n) sample"
    using assms(2) by (simp add: predict_def)
  have a: "\<exists>leaf. descends sample n leaf \<and> isLeaf leaf \<and>
               (\<forall>m. descends sample n m \<longrightarrow> m = leaf) \<and>
               predict dt sample = Inr (label leaf)" if "pathDefined sample n"
  proof -
    from pathDefined_descends [OF assms(1) that] obtain leaf where d: "descends sample n leaf"
      by blast
    have u: "\<forall>m. descends sample n m \<longrightarrow> m = leaf" using descends_unique [OF d] by blast
    from descends_predict [OF d] p have "isLeaf leaf" "predict dt sample = Inr (label leaf)"
      by simp_all
    with d u show ?thesis by blast
  qed
  have b: "predict dt sample = Inl OutOfBounds" if "\<not> pathDefined sample n"
    using not_pathDefined_out_of_bounds [OF assms(1) that] p by simp
  have c: "predict dt sample = Inr l \<longleftrightarrow> (\<exists>leaf. descends sample n leaf \<and> label leaf = l)" for l
  proof
    assume r: "predict dt sample = Inr l"
    with b have "pathDefined sample n" by auto
    from a [OF this] r show "\<exists>leaf. descends sample n leaf \<and> label leaf = l" by auto
  next
    assume "\<exists>leaf. descends sample n leaf \<and> label leaf = l"
    then obtain leaf where "descends sample n leaf" "label leaf = l" by blast
    with descends_predict [of sample n leaf] p show "predict dt sample = Inr l" by simp
  qed
  have d: "T_predictRecursive (root dt) sample \<le> depth n"
    using comparisons_le_depth [OF assms(1)] assms(2) by simp
  from a b c d show ?thesis by blast
qed

theorem predict_descends_to_leaf_witness:
  "wellFormed (Node False 0 2 (- 1) (Some (leafNode 0))
      (Some (Node False 1 5 (- 1) (Some (leafNode 1)) (Some (leafNode 2))))) \<and>
   pathDefined [1]
     (Node False 0 2 (- 1) (Some (leafNode 0))
        (Some (Node False 1 5 (- 1) (Some (leafNode 1)) (Some (leafNode 2))))) \<and>
   predict \<lparr>root = Some (Node False 0 2 (- 1) (Some (leafNode 0))
      (Some (Node False 1 5 (- 1) (Some (leafNode 1)) (Some (leafNode 2)))))\<rparr> [1] = Inr 0 \<and>
   predict \<lparr>root = Some (Node False 0 2 (- 1) (Some (leafNode 0))
      (Some (Node False 1 5 (- 1) (Some (leafNode 1)) (Some (leafNode 2)))))\<rparr> [3] = Inl OutOfBounds"
  using predict_descends_to_leaf [of "Node False 0 2 (- 1) (Some (leafNode 0))
      (Some (Node False 1 5 (- 1) (Some (leafNode 1)) (Some (leafNode 2))))"
      "\<lparr>root = Some (Node False 0 2 (- 1) (Some (leafNode 0))
        (Some (Node False 1 5 (- 1) (Some (leafNode 1)) (Some (leafNode 2)))))\<rparr>" "[1]"]
    predict_descends_to_leaf [of "Node False 0 2 (- 1) (Some (leafNode 0))
      (Some (Node False 1 5 (- 1) (Some (leafNode 1)) (Some (leafNode 2))))"
      "\<lparr>root = Some (Node False 0 2 (- 1) (Some (leafNode 0))
        (Some (Node False 1 5 (- 1) (Some (leafNode 1)) (Some (leafNode 2)))))\<rparr>" "[3]"]
  by (simp add: leafNode_def mkNode_def nth_opt_def predict_def)

section \<open>Claims about the recursion, determinism and the boundary scenario\<close>

lemma winning_split_facts:
  assumes pre: "fit_pre data labels"
    and s: "searchBest A data labels = Some (f, t, g)" and f: "f \<noteq> - 1"
    and d: "splitData data labels f t = Some (ld, ll, rd, rl)"
  shows "0 < g \<and> ld \<noteq> [] \<and> rd \<noteq> [] \<and> (\<exists>row \<in> set data. \<exists>v. nth_opt row f = Some v \<and> t < v)"
proof -
  from searchBest_accepted [OF s] f have g: "0 < g" by (simp add: accepted_def)
  from winning_split_pre [OF pre s f d] have ne: "ld \<noteq> []" "rd \<noteq> []"
    by (auto dest: fit_pre_nonempty)
  then have "hd rd \<in> set rd" by simp
  with splitData_sides [OF d] obtain v where v: "nth_opt (hd rd) f = Some v" "t < v" by blast
  from \<open>hd rd \<in> set rd\<close> splitData_subset [OF d] have "hd rd \<in> set data" by blast
  with v g ne show ?thesis by blast
qed

text \<open>
  Claim C3 says that some input satisfying the precondition of \<^verbatim>\<open>fit\<close> makes \<^verbatim>\<open>buildTree\<close>
  invoke itself on an empty dataset and an empty label list. No such input exists: no chain
  of recursive invocations that starts from an input satisfying the precondition reaches
  the empty dataset.
\<close>

theorem no_recursive_call_on_empty_dataset:
  "\<not> (\<exists>A data labels. fit_pre data labels \<and> (invokes A)\<^sup>*\<^sup>* (data, labels) ([], []))"
proof
  assume "\<exists>A data labels. fit_pre data labels \<and> (invokes A)\<^sup>*\<^sup>* (data, labels) ([], [])"
  then obtain A data labels where "fit_pre data labels" "(invokes A)\<^sup>*\<^sup>* (data, labels) ([], [])"
    by blast
  from invokes_star_pre [OF this(2)] this(1) have "fit_pre [] []" by simp
  then show False by (auto dest: fit_pre_nonempty)
qed

text \<open>
  Claim C3, amended. For every input satisfying the precondition of \<^verbatim>\<open>fit\<close>, every call
  of \<^verbatim>\<open>buildTree\<close> reached by recursive invocations again satisfies the precondition (its
  dataset and label list are non-empty) and returns a node without any out-of-range read;
  and a winning split of such a call has gain strictly greater than 0, a threshold strictly
  below the value of its feature in some current row, and two non-empty partitions.
\<close>

theorem recursive_calls_keep_precondition:
  assumes "fit_pre data labels" and "(invokes A)\<^sup>*\<^sup>* (data, labels) (d', l')"
  shows "fit_pre d' l' \<and> d' \<noteq> [] \<and> l' \<noteq> [] \<and> (\<exists>node. buildTree A d' l' = Inr node) \<and>
         (\<forall>f t g ld ll rd rl.
            searchBest A d' l' = Some (f, t, g) \<and> f \<noteq> - 1 \<and>
            splitData d' l' f t = Some (ld, ll, rd, rl) \<longrightarrow>
            0 < g \<and> ld \<noteq> [] \<and> rd \<noteq> [] \<and>
            (\<exists>row \<in> set d'. \<exists>v. nth_opt row f = Some v \<and> t < v))"
proof -
  from invokes_star_pre [OF assms(2)] assms(1) have p: "fit_pre d' l'" by simp
  then have ne: "d' \<noteq> []" by (rule fit_pre_nonempty)
  with fit_pre_length [OF p] have ne': "l' \<noteq> []" by auto
  from p have b: "\<exists>node. buildTree A d' l' = Inr node" by (rule buildTree_defined)
  have w: "0 < g \<and> ld \<noteq> [] \<and> rd \<noteq> [] \<and>
            (\<exists>row \<in> set d'. \<exists>v. nth_opt row f = Some v \<and> t < v)"
    if "searchBest A d' l' = Some (f, t, g) \<and> f \<noteq> - 1 \<and>
        splitData d' l' f t = Some (ld, ll, rd, rl)" for f t g ld ll rd rl
    using that winning_split_facts [OF p, of A f t g ld ll rd rl] by blast
  from p ne ne' b w show ?thesis by blast
qed

lemma invokes_boundary_right:
  "invokes exact_arith ([[1], [2], [3], [4]], [0, 0, 1, 1]) ([[3], [4]], [1, 1])"
  by (rule invokes_right [OF not_pure_0011 searchBest_boundary, where ld = "[[1], [2]]" and ll = "[0, 0]"])
     (simp_all add: nth_opt_def)

lemma fit_pre_boundary: "fit_pre [[1], [2], [3], [4]] [0, 0, 1, 1]"
  by (simp add: fit_pre_def)

theorem recursive_calls_keep_precondition_witness:
  "fit_pre [[1], [2], [3], [4]] [0, 0, 1, 1] \<and>
   (invokes exact_arith)\<^sup>*\<^sup>* ([[1], [2], [3], [4]], [0, 0, 1, 1]) ([[3], [4]], [1, 1]) \<and>
   fit_pre [[3], [4]] [1, 1] \<and> (\<exists>node. buildTree exact_arith [[3], [4]] [1, 1] = Inr node)"
proof -
  have i: "(invokes exact_arith)\<^sup>*\<^sup>* ([[1], [2], [3], [4]], [0, 0, 1, 1]) ([[3], [4]], [1, 1])"
    using invokes_boundary_right by (rule r_into_rtranclp)
  from recursive_calls_keep_precondition [OF fit_pre_boundary i] fit_pre_boundary i
  show ?thesis by blast
qed

text \<open>
  Claim C9. For every dataset and label list satisfying the precondition, \<^verbatim>\<open>fit\<close> returns,
  and the tree it stores does not depend on the tree held before: two calls on the same
  input store the same root, so \<^verbatim>\<open>predict\<close> agrees on every sample; and on a sample as
  wide as the training rows \<^verbatim>\<open>predict\<close> returns a label.
\<close>

theorem fit_deterministic:
  assumes "fit_pre data labels"
  shows "\<exists>node. fit A dt1 data labels = Inr (dt1\<lparr>root := Some node\<rparr>) \<and>
           fit A dt2 data labels = Inr (dt2\<lparr>root := Some node\<rparr>) \<and>
           (\<forall>sample. predict (dt1\<lparr>root := Some node\<rparr>) sample =
                     predict (dt2\<lparr>root := Some node\<rparr>) sample) \<and>
           (\<forall>sample. length sample = length (hd data) \<longrightarrow>
                     (\<exists>l. predict (dt1\<lparr>root := Some node\<rparr>) sample = Inr l))"
proof -
  from buildTree_defined [OF assms] obtain node where b: "buildTree A data labels = Inr node" by blast
  have wf: "wellFormed node" using b by (rule buildTree_wellFormed)
  have fb: "featuresBelow (length (hd data)) node" using assms b by (rule buildTree_featuresBelow)
  have 1: "fit A dt1 data labels = Inr (dt1\<lparr>root := Some node\<rparr>)" using b by (simp add: fit_def)
  have 2: "fit A dt2 data labels = Inr (dt2\<lparr>root := Some node\<rparr>)" using b by (simp add: fit_def)
  have 3: "predict (dt1\<lparr>root := Some node\<rparr>) sample = predict (dt2\<lparr>root := Some node\<rparr>) sample"
    for sample by (simp add: predict_def)
  have 4: "\<exists>l. predict (dt1\<lparr>root := Some node\<rparr>) sample = Inr l"
    if "length sample = length (hd data)" for sample
  proof -
    from fb that have "featuresBelow (length sample) node" by simp
    from predict_walk [OF wf this] show ?thesis by (auto simp: predict_def)
  qed
  from 1 2 3 4 show ?thesis by blast
qed

theorem fit_deterministic_witness:
  "fit_pre [[1], [2], [3], [4]] [0, 0, 1, 1] \<and>
   (\<exists>node. fit exact_arith \<lparr>root = None\<rparr> [[1], [2], [3], [4]] [0, 0, 1, 1] = Inr \<lparr>root = Some node\<rparr> \<and>
      fit exact_arith \<lparr>root = Some (leafNode 5)\<rparr> [[1], [2], [3], [4]] [0, 0, 1, 1] = Inr \<lparr>root = Some node\<rparr>)"
  using fit_deterministic [OF fit_pre_boundary, of exact_arith "\<lparr>root = None\<rparr>"
      "\<lparr>root = Some (leafNode 5)\<rparr>"]
    fit_pre_boundary
  by simp blast


section \<open>The label counts and the entropy\<close>

lemma incrCount_keys: "set (map fst (incrCount l m)) = insert l (set (map fst m))"
  by (induction l m rule: incrCount.induct) auto

lemma incrCount_sorted:
  "sorted_wrt (<) (map fst m) \<Longrightarrow> sorted_wrt (<) (map fst (incrCount l m))"
proof (induction l m rule: incrCount.induct)
  case (1 l)
  show ?case by simp
next
  case (2 l k c m)
  show ?case
  proof (cases "l = k")
    case True
    with 2 show ?thesis by simp
  next
    case ne: False
    show ?thesis
    proof (cases "l < k")
      case True
      with ne 2 show ?thesis by auto
    next
      case False
      with ne have kl: "k < l" by simp
      from 2 ne False have "sorted_wrt (<) (map fst (incrCount l m))" by simp
      moreover have "\<forall>x \<in> set (map fst (incrCount l m)). k < x"
        using "2.prems" kl unfolding incrCount_keys by auto
      ultimately show ?thesis using ne False by simp
    qed
  qed
qed

lemma incrCount_entries:
  "sorted_wrt (<) (map fst m) \<Longrightarrow> (k, c) \<in> set (incrCount l m) \<Longrightarrow>
     (k = l \<and> (c = 1 \<and> l \<notin> set (map fst m) \<or> (l, c - 1) \<in> set m)) \<or> (k \<noteq> l \<and> (k, c) \<in> set m)"
proof (induction l m rule: incrCount.induct)
  case (1 l)
  then show ?case by simp
next
  case (2 l k' c' m)
  show ?case
  proof (cases "l = k'")
    case True
    with "2.prems" show ?thesis by force
  next
    case ne: False
    show ?thesis
    proof (cases "l < k'")
      case True
      with ne "2.prems" show ?thesis by force
    next
      case False
      from "2.prems"(1) have s: "sorted_wrt (<) (map fst m)" by simp
      from "2.prems"(2) ne False have "(k, c) = (k', c') \<or> (k, c) \<in> set (incrCount l m)" by simp
      then show ?thesis
      proof
        assume "(k, c) = (k', c')"
        with ne show ?thesis by auto
      next
        assume "(k, c) \<in> set (incrCount l m)"
        from "2.IH" [OF ne False s this] ne show ?thesis by auto
      qed
    qed
  qed
qed

lemma counts_of_incr:
  assumes "counts_of m ls"
  shows "counts_of (incrCount l m) (ls @ [l])"
proof -
  from assms have s: "sorted_wrt (<) (map fst m)" and k: "set (map fst m) = set ls"
    and c: "\<And>kc. kc \<in> set m \<Longrightarrow> snd kc = int (count_list ls (fst kc))"
    by (auto simp: counts_of_def)
  have "snd kc = int (count_list (ls @ [l]) (fst kc))" if "kc \<in> set (incrCount l m)" for kc
  proof -
    obtain k' c' where kc: "kc = (k', c')" by (cases kc)
    from incrCount_entries [OF s that [unfolded kc]]
    show ?thesis
    proof (elim disjE conjE)
      assume "k' = l" "c' = 1" "l \<notin> set (map fst m)"
      with k have "count_list ls l = 0" by (simp add: count_list_0_iff)
      with \<open>k' = l\<close> \<open>c' = 1\<close> kc show ?thesis by simp
    next
      assume "k' = l" "(l, c' - 1) \<in> set m"
      from c [OF this(2)] \<open>k' = l\<close> kc show ?thesis by simp
    next
      assume "k' \<noteq> l" "(k', c') \<in> set m"
      from c [OF this(2)] \<open>k' \<noteq> l\<close> kc show ?thesis by simp
    qed
  qed
  with incrCount_sorted [OF s, of l] incrCount_keys [of l m] k show ?thesis
    by (auto simp: counts_of_def)
qed

lemma counts_of_foldl:
  "counts_of m ls \<Longrightarrow> counts_of (foldl (\<lambda>m l. incrCount l m) m ls') (ls @ ls')"
proof (induction ls' arbitrary: m ls)
  case Nil
  then show ?case by simp
next
  case (Cons l ls')
  from Cons.IH [OF counts_of_incr [OF Cons.prems, of l]] show ?case by simp
qed

lemma counts_of_labelCounts: "counts_of (labelCounts ls) ls"
  using counts_of_foldl [of "[]" "[]" ls] by (simp add: labelCounts_def counts_of_def)


lemma labelCounts_keys_distinct: "distinct (map fst (labelCounts ls))"
  using counts_of_labelCounts [of ls] strict_sorted_iff [of "map fst (labelCounts ls)"]
  by (simp add: counts_of_def)

lemma labelCounts_keys: "set (map fst (labelCounts ls)) = set ls"
  using counts_of_labelCounts [of ls] by (simp add: counts_of_def)





lemma count_list_pos: "c \<in> set ls \<Longrightarrow> 0 < count_list ls c"
  by (induction ls) auto














section \<open>The search as a fold over the candidates\<close>

lemma splitLabels_spec:
  "rows_of_width n data \<Longrightarrow> length data \<le> length labels \<Longrightarrow> 0 \<le> f \<Longrightarrow> nat f < n \<Longrightarrow>
     splitLabels data labels f t = Some (leftLabelsOf data labels f t, rightLabelsOf data labels f t)"
proof (induction data arbitrary: labels)
  case Nil
  show ?case by (simp add: leftLabelsOf_def rightLabelsOf_def)
next
  case (Cons row data)
  from Cons.prems(2) obtain l ls where labels: "labels = l # ls" by (cases labels) auto
  have "rows_of_width n data" "length data \<le> length ls"
    using Cons.prems labels by (simp_all add: rows_of_width_def)
  from Cons.IH [OF this Cons.prems(3,4)]
  have IH: "splitLabels data ls f t = Some (leftLabelsOf data ls f t, rightLabelsOf data ls f t)" .
  have v: "nth_opt row f = Some (row ! nat f)"
    using Cons.prems by (simp add: rows_of_width_def nth_opt_def)
  show ?case
    unfolding labels using v IH by (simp add: leftLabelsOf_def rightLabelsOf_def not_le)
qed

lemma tryCandidate_better:
  assumes "rows_of_width n data" "length data \<le> length labels" "0 \<le> f" "nat f < n" "length s = n"
  shows "tryCandidate A data labels f b s = Some (better A data labels b (f, s ! nat f))"
proof -
  have "nth_opt s f = Some (s ! nat f)" using assms by (simp add: nth_opt_def)
  then show ?thesis
    using splitLabels_spec [OF assms(1-4), of "s ! nat f"]
    by (simp add: tryCandidate_def Let_def better_def candidateGain_def)
qed

lemma sampleLoop_foldl:
  assumes "rows_of_width n data" "length data \<le> length labels" "0 \<le> f" "nat f < n"
  shows "rows_of_width n ss \<Longrightarrow>
     sampleLoop A data labels f ss b =
       Some (foldl (better A data labels) b (map (\<lambda>s. (f, s ! nat f)) ss))"
proof (induction ss arbitrary: b)
  case Nil
  show ?case by simp
next
  case (Cons s ss)
  then have "length s = n" "rows_of_width n ss" by (simp_all add: rows_of_width_def)
  from tryCandidate_better [OF assms this(1)] Cons.IH [OF this(2)] show ?case by simp
qed

lemma featureLoop_foldl:
  assumes "rows_of_width n data" "length data \<le> length labels"
  shows "\<forall>f \<in> set fs. 0 \<le> f \<and> nat f < n \<Longrightarrow>
     featureLoop A data labels fs b =
       Some (foldl (better A data labels) b
               (concat (map (\<lambda>f. map (\<lambda>s. (f, s ! nat f)) data) fs)))"
proof (induction fs arbitrary: b)
  case Nil
  show ?case by simp
next
  case (Cons f fs)
  then have "0 \<le> f" "nat f < n" "\<forall>f \<in> set fs. 0 \<le> f \<and> nat f < n" by simp_all
  from sampleLoop_foldl [OF assms this(1,2) assms(1)] Cons.IH [OF this(3)] show ?case by simp
qed

lemma searchBest_foldl:
  assumes "fit_pre data labels"
  shows "searchBest A data labels = Some (foldl (better A data labels) (- 1, 0, 0) (candidates data))"
proof -
  from assms obtain row0 rest where d: "data = row0 # rest"
    by (cases data) (auto dest: fit_pre_nonempty)
  have r: "rows_of_width (length row0) data" using fit_pre_rows [OF assms] d by simp
  have l: "length data \<le> length labels" using fit_pre_length [OF assms] by simp
  have "featureLoop A data labels (map int [0..<length row0]) (- 1, 0, 0) =
      Some (foldl (better A data labels) (- 1, 0, 0)
              (concat (map (\<lambda>f. map (\<lambda>s. (f, s ! nat f)) data) (map int [0..<length row0]))))"
    by (rule featureLoop_foldl [OF r l]) auto
  moreover have "concat (map (\<lambda>f. map (\<lambda>s. (f, s ! nat f)) data) (map int [0..<length row0]))
      = candidates data"
    using d by (simp add: candidates_def comp_def)
  ultimately show ?thesis using d by (simp add: searchBest_def nth_opt_def)
qed

text \<open>
  The fold keeps the first candidate whose gain is maximal, provided that gain exceeds the
  gain the fold started with.
\<close>

lemma foldl_better:
  "foldl (better A data labels) (f0, t0, g0) cs = (f, t, g) \<Longrightarrow>
     ((f, t, g) = (f0, t0, g0) \<and> (\<forall>j < length cs. candidateGain A data labels (cs ! j) \<le> g0)) \<or>
     (\<exists>i < length cs. (f, t) = cs ! i \<and> g = candidateGain A data labels (cs ! i) \<and> g0 < g \<and>
        (\<forall>j < length cs. candidateGain A data labels (cs ! j) \<le> g) \<and>
        (\<forall>j < i. candidateGain A data labels (cs ! j) < g))"
proof (induction cs arbitrary: f0 t0 g0)
  case Nil
  then show ?case by simp
next
  case (Cons c cs)
  let ?G = "candidateGain A data labels"
  show ?case
  proof (cases "?G c > g0")
    case True
    then have "better A data labels (f0, t0, g0) c = (fst c, snd c, ?G c)"
      by (simp add: better_def)
    with Cons.prems have "foldl (better A data labels) (fst c, snd c, ?G c) cs = (f, t, g)"
      by simp
    from Cons.IH [OF this] show ?thesis
    proof (elim disjE conjE exE)
      assume eq: "(f, t, g) = (fst c, snd c, ?G c)" and le: "\<forall>j < length cs. ?G (cs ! j) \<le> ?G c"
      have "\<forall>j < length (c # cs). ?G ((c # cs) ! j) \<le> g"
      proof (intro allI impI)
        fix j assume "j < length (c # cs)"
        then show "?G ((c # cs) ! j) \<le> g" using le eq by (cases j) auto
      qed
      with eq True have "0 < length (c # cs) \<and> (f, t) = (c # cs) ! 0 \<and> g = ?G ((c # cs) ! 0) \<and> g0 < g \<and>
        (\<forall>j < length (c # cs). ?G ((c # cs) ! j) \<le> g) \<and> (\<forall>j < 0. ?G ((c # cs) ! j) < g)"
        by (simp add: prod_eq_iff)
      then show ?thesis by blast
    next
      fix i
      assume i: "i < length cs" "(f, t) = cs ! i" "g = ?G (cs ! i)" "?G c < g"
        and le: "\<forall>j < length cs. ?G (cs ! j) \<le> g" and lt: "\<forall>j < i. ?G (cs ! j) < g"
      have a: "\<forall>j < length (c # cs). ?G ((c # cs) ! j) \<le> g"
      proof (intro allI impI)
        fix j assume "j < length (c # cs)"
        then show "?G ((c # cs) ! j) \<le> g" using le i(4) by (cases j) auto
      qed
      have b: "\<forall>j < Suc i. ?G ((c # cs) ! j) < g"
      proof (intro allI impI)
        fix j assume "j < Suc i"
        then show "?G ((c # cs) ! j) < g" using lt i(4) by (cases j) auto
      qed
      from i True a b have "Suc i < length (c # cs) \<and> (f, t) = (c # cs) ! Suc i \<and>
        g = ?G ((c # cs) ! Suc i) \<and> g0 < g \<and>
        (\<forall>j < length (c # cs). ?G ((c # cs) ! j) \<le> g) \<and> (\<forall>j < Suc i. ?G ((c # cs) ! j) < g)"
        by simp
      then show ?thesis by blast
    qed
  next
    case False
    then have "better A data labels (f0, t0, g0) c = (f0, t0, g0)"
      by (simp add: better_def)
    with Cons.prems have "foldl (better A data labels) (f0, t0, g0) cs = (f, t, g)"
      by simp
    from Cons.IH [OF this] show ?thesis
    proof (elim disjE conjE exE)
      assume eq: "(f, t, g) = (f0, t0, g0)" and le: "\<forall>j < length cs. ?G (cs ! j) \<le> g0"
      have "\<forall>j < length (c # cs). ?G ((c # cs) ! j) \<le> g0"
      proof (intro allI impI)
        fix j assume "j < length (c # cs)"
        then show "?G ((c # cs) ! j) \<le> g0" using le False by (cases j) auto
      qed
      with eq show ?thesis by blast
    next
      fix i
      assume i: "i < length cs" "(f, t) = cs ! i" "g = ?G (cs ! i)" "g0 < g"
        and le: "\<forall>j < length cs. ?G (cs ! j) \<le> g" and lt: "\<forall>j < i. ?G (cs ! j) < g"
      from False i(4) have cg: "?G c < g" by simp
      have a: "\<forall>j < length (c # cs). ?G ((c # cs) ! j) \<le> g"
      proof (intro allI impI)
        fix j assume "j < length (c # cs)"
        then show "?G ((c # cs) ! j) \<le> g" using le cg by (cases j) auto
      qed
      have b: "\<forall>j < Suc i. ?G ((c # cs) ! j) < g"
      proof (intro allI impI)
        fix j assume "j < Suc i"
        then show "?G ((c # cs) ! j) < g" using lt cg by (cases j) auto
      qed
      from i a b have "Suc i < length (c # cs) \<and> (f, t) = (c # cs) ! Suc i \<and>
        g = ?G ((c # cs) ! Suc i) \<and> g0 < g \<and>
        (\<forall>j < length (c # cs). ?G ((c # cs) ! j) \<le> g) \<and> (\<forall>j < Suc i. ?G ((c # cs) ! j) < g)"
        by simp
      then show ?thesis by blast
    qed
  qed
qed

lemma concat_uniform_nth:
  assumes "\<And>f. f < w \<Longrightarrow> length (g f) = n" "f < w" "i < n"
  shows "concat (map g [0..<w]) ! (f * n + i) = g f ! i \<and> length (concat (map g [0..<w])) = w * n"
  using assms
proof (induction w)
  case 0
  then show ?case by simp
next
  case (Suc w)
  have len: "length (concat (map g [0..<w])) = w * n"
    using Suc.prems(1) by (induction w) simp_all
  show ?case
  proof (cases "f < w")
    case True
    with Suc have "concat (map g [0..<w]) ! (f * n + i) = g f ! i" by simp
    moreover have "f * n + i < w * n"
    proof -
      from True have "Suc f \<le> w" by simp
      then have "Suc f * n \<le> w * n" by (rule mult_le_mono1)
      with Suc.prems(3) show ?thesis by simp
    qed
    ultimately show ?thesis using len Suc.prems(1) [of w] by (simp add: nth_append)
  next
    case False
    with Suc.prems(2) have "f = w" by simp
    then show ?thesis using len Suc.prems(1) [of w] by (simp add: nth_append)
  qed
qed

lemma candidates_nth:
  assumes "f < length (hd data)" "i < length data"
  shows "candidates data ! (f * length data + i) = (int f, data ! i ! f) \<and>
         length (candidates data) = length (hd data) * length data"
  using concat_uniform_nth [of "length (hd data)" "\<lambda>f. map (\<lambda>sample. (int f, sample ! f)) data"
      "length data" f i] assms
  by (simp add: candidates_def)

section \<open>The majority label\<close>

lemma foldl_majorityStep:
  "sorted_wrt (<) (map fst m) \<Longrightarrow> foldl majorityStep (a, c) m = (a', c') \<Longrightarrow>
     ((a', c') = (a, c) \<and> (\<forall>kc \<in> set m. snd kc \<le> c)) \<or>
     ((a', c') \<in> set m \<and> c < c' \<and> (\<forall>kc \<in> set m. snd kc \<le> c') \<and>
      (\<forall>kc \<in> set m. snd kc = c' \<longrightarrow> a' \<le> fst kc))"
proof (induction m arbitrary: a c)
  case Nil
  then show ?case by simp
next
  case (Cons x m)
  obtain k n where x: "x = (k, n)" by (cases x)
  from Cons.prems(1) x have s: "sorted_wrt (<) (map fst m)" and gt: "\<forall>kc \<in> set m. k < fst kc"
    by auto
  show ?case
  proof (cases "n > c")
    case True
    then have "majorityStep (a, c) x = (k, n)" by (simp add: majorityStep_def x)
    with Cons.prems(2) have "foldl majorityStep (k, n) m = (a', c')" by simp
    from Cons.IH [OF s this] show ?thesis
    proof (elim disjE conjE)
      assume eq: "(a', c') = (k, n)" and le: "\<forall>kc \<in> set m. snd kc \<le> n"
      from eq have "(a', c') \<in> set (x # m)" by (simp add: x)
      moreover from eq True have "c < c'" by simp
      moreover from eq le have "\<forall>kc \<in> set (x # m). snd kc \<le> c'" by (simp add: x)
      moreover from eq gt have "\<forall>kc \<in> set (x # m). snd kc = c' \<longrightarrow> a' \<le> fst kc"
        by (auto simp: x)
      ultimately show ?thesis by blast
    next
      assume i: "(a', c') \<in> set m" "n < c'" and le: "\<forall>kc \<in> set m. snd kc \<le> c'"
        and first: "\<forall>kc \<in> set m. snd kc = c' \<longrightarrow> a' \<le> fst kc"
      from i have "(a', c') \<in> set (x # m)" by simp
      moreover from i True have "c < c'" by simp
      moreover from i le have "\<forall>kc \<in> set (x # m). snd kc \<le> c'" by (simp add: x)
      moreover from i first have "\<forall>kc \<in> set (x # m). snd kc = c' \<longrightarrow> a' \<le> fst kc"
        by (simp add: x)
      ultimately show ?thesis by blast
    qed
  next
    case False
    then have "majorityStep (a, c) x = (a, c)" by (simp add: majorityStep_def x)
    with Cons.prems(2) have "foldl majorityStep (a, c) m = (a', c')" by simp
    from Cons.IH [OF s this] show ?thesis
    proof (elim disjE conjE)
      assume eq: "(a', c') = (a, c)" and le: "\<forall>kc \<in> set m. snd kc \<le> c"
      from le False have "\<forall>kc \<in> set (x # m). snd kc \<le> c" by (simp add: x)
      with eq show ?thesis by blast
    next
      assume i: "(a', c') \<in> set m" "c < c'" and le: "\<forall>kc \<in> set m. snd kc \<le> c'"
        and first: "\<forall>kc \<in> set m. snd kc = c' \<longrightarrow> a' \<le> fst kc"
      from i have "(a', c') \<in> set (x # m)" by simp
      moreover from i le False have "\<forall>kc \<in> set (x # m). snd kc \<le> c'" by (simp add: x)
      moreover from i first False have "\<forall>kc \<in> set (x # m). snd kc = c' \<longrightarrow> a' \<le> fst kc"
        by (simp add: x)
      ultimately show ?thesis using i(2) by blast
    qed
  qed
qed

lemma labelCounts_entry:
  assumes "l \<in> set ls"
  shows "(l, int (count_list ls l)) \<in> set (labelCounts ls)"
proof -
  from assms have "l \<in> set (map fst (labelCounts ls))" by (simp only: labelCounts_keys)
  then obtain kc where kc: "kc \<in> set (labelCounts ls)" "fst kc = l" by auto
  with counts_of_labelCounts [of ls] have "snd kc = int (count_list ls l)"
    by (auto simp: counts_of_def)
  with kc show ?thesis by (metis prod.collapse)
qed

lemma majorityLabel_spec:
  assumes "ls \<noteq> []"
  shows "\<exists>m. majorityLabel ls = Some m \<and> m \<in> set ls \<and>
           (\<forall>l. count_list ls l \<le> count_list ls m) \<and>
           (\<forall>l. count_list ls l = count_list ls m \<longrightarrow> m \<le> l)"
proof -
  obtain a' c' where r: "foldl majorityStep (hd ls, 0) (labelCounts ls) = (a', c')"
    by (cases "foldl majorityStep (hd ls, 0) (labelCounts ls)")
  from assms have "nth_opt ls 0 = Some (hd ls)" by (cases ls) (simp_all add: nth_opt_def)
  with r have m: "majorityLabel ls = Some a'" by (simp add: majorityLabel_def)
  have s: "sorted_wrt (<) (map fst (labelCounts ls))"
    using counts_of_labelCounts [of ls] by (simp add: counts_of_def)
  have hd_in: "hd ls \<in> set ls" using assms by simp
  have hd_entry: "(hd ls, int (count_list ls (hd ls))) \<in> set (labelCounts ls)"
    using hd_in by (rule labelCounts_entry)
  have hd_pos: "0 < int (count_list ls (hd ls))" using count_list_pos [OF hd_in] by simp
  have "\<not> (\<forall>kc \<in> set (labelCounts ls). snd kc \<le> 0)"
    using hd_entry hd_pos by force
  with foldl_majorityStep [OF s r] have
    "(a', c') \<in> set (labelCounts ls) \<and> (\<forall>kc \<in> set (labelCounts ls). snd kc \<le> c') \<and>
     (\<forall>kc \<in> set (labelCounts ls). snd kc = c' \<longrightarrow> a' \<le> fst kc)"
    by blast
  then have sel: "(a', c') \<in> set (labelCounts ls)"
    and le: "\<forall>kc \<in> set (labelCounts ls). snd kc \<le> c'"
    and first: "\<forall>kc \<in> set (labelCounts ls). snd kc = c' \<longrightarrow> a' \<le> fst kc"
    by blast+
  from sel have "a' \<in> set (map fst (labelCounts ls))" by force
  then have a_in: "a' \<in> set ls" by (simp only: labelCounts_keys)
  from sel counts_of_labelCounts [of ls] have c': "c' = int (count_list ls a')"
    by (auto simp: counts_of_def)
  have max: "count_list ls l \<le> count_list ls a'" for l
  proof (cases "l \<in> set ls")
    case True
    from le labelCounts_entry [OF True] c' show ?thesis by force
  next
    case False
    then show ?thesis by (simp add: count_list_0_iff)
  qed
  have least: "a' \<le> l" if "count_list ls l = count_list ls a'" for l
  proof -
    from that count_list_pos [OF a_in] have "l \<in> set ls"
      by (metis count_list_0_iff less_numeral_extra(3))
    from first labelCounts_entry [OF this] that c' show ?thesis by force
  qed
  from m a_in max least show ?thesis by blast
qed

section \<open>Claims about the split search and the majority fallback\<close>

lemma candidates_feature_nonneg: "c \<in> set (candidates data) \<Longrightarrow> 0 \<le> fst c"
  by (auto simp: candidates_def)

lemma candidates_length: "length (candidates data) = length (hd data) * length data"
  by (simp add: candidates_def length_concat comp_def sum_list_triv)

lemma searchBest_outcome:
  assumes "fit_pre data labels"
  shows "\<exists>f t g. searchBest A data labels = Some (f, t, g) \<and>
     (((f, t, g) = (- 1, 0, 0) \<and>
       (\<forall>j < length (candidates data). candidateGain A data labels (candidates data ! j) \<le> 0)) \<or>
      (\<exists>i < length (candidates data).
         f \<noteq> - 1 \<and> (f, t) = candidates data ! i \<and>
         g = candidateGain A data labels (candidates data ! i) \<and> 0 < g \<and>
         (\<forall>j < length (candidates data). candidateGain A data labels (candidates data ! j) \<le> g) \<and>
         (\<forall>j < i. candidateGain A data labels (candidates data ! j) < g)))"
proof -
  obtain f t g where r: "foldl (better A data labels) (- 1, 0, 0) (candidates data) = (f, t, g)"
    by (cases "foldl (better A data labels) (- 1, 0, 0) (candidates data)")
  with searchBest_foldl [OF assms] have s: "searchBest A data labels = Some (f, t, g)" by simp
  from foldl_better [OF r] show ?thesis
  proof (elim disjE conjE exE)
    assume "(f, t, g) = (- 1, 0, 0)"
      "\<forall>j < length (candidates data). candidateGain A data labels (candidates data ! j) \<le> 0"
    with s show ?thesis by blast
  next
    fix i
    assume i: "i < length (candidates data)" "(f, t) = candidates data ! i"
      "g = candidateGain A data labels (candidates data ! i)" "0 < g"
      "\<forall>j < length (candidates data). candidateGain A data labels (candidates data ! j) \<le> g"
      "\<forall>j < i. candidateGain A data labels (candidates data ! j) < g"
    from i(1) have "candidates data ! i \<in> set (candidates data)" by simp
    from candidates_feature_nonneg [OF this] i(2) have "0 \<le> f" by (metis fst_conv)
    then have "f \<noteq> - 1" by simp
    with s i show ?thesis by blast
  qed
qed

lemma candidate_split_defined:
  assumes "fit_pre data labels" "c \<in> set (candidates data)"
  shows "splitLabels data labels (fst c) (snd c) =
      Some (leftLabelsOf data labels (fst c) (snd c), rightLabelsOf data labels (fst c) (snd c))"
proof -
  from assms(2) have "0 \<le> fst c" "nat (fst c) < length (hd data)" by (auto simp: candidates_def)
  with fit_pre_rows [OF assms(1)] fit_pre_length [OF assms(1)] show ?thesis
    by (intro splitLabels_spec [where n = "length (hd data)"]) simp_all
qed

text \<open>
  Claim C1. Under the precondition of \<^verbatim>\<open>fit\<close> the search of \<^verbatim>\<open>buildTree\<close> ends without
  an out-of-range read, and for each candidate \<^verbatim>\<open>splitLabels\<close> yields the labels of the rows
  with value \<open>\<le>\<close> the threshold and those of the rows with value \<open>>\<close> it. The candidates
  are the feature values of the current samples,
  enumerated features outer and samples inner (candidate number \<open>f \<cdot> |data| + i\<close> is feature
  \<open>f\<close> with the value of row \<open>i\<close>). Gains are the computed doubles, whatever
  the rounding. Either no candidate has gain strictly greater than 0 and
  the feature index stays at \<open>-1\<close>; or the selected pair is a candidate of maximal gain, that
  gain is strictly greater than 0, and every candidate enumerated earlier has a strictly
  smaller gain.
\<close>

theorem split_search_first_maximum:
  assumes "fit_pre data labels"
  shows "(\<exists>f t g. searchBest A data labels = Some (f, t, g) \<and>
     (((f, t, g) = (- 1, 0, 0) \<and>
       (\<forall>j < length (candidates data). candidateGain A data labels (candidates data ! j) \<le> 0)) \<or>
      (\<exists>i < length (candidates data).
         f \<noteq> - 1 \<and> (f, t) = candidates data ! i \<and>
         g = candidateGain A data labels (candidates data ! i) \<and> 0 < g \<and>
         (\<forall>j < length (candidates data). candidateGain A data labels (candidates data ! j) \<le> g) \<and>
         (\<forall>j < i. candidateGain A data labels (candidates data ! j) < g)))) \<and>
   length (candidates data) = length (hd data) * length data \<and>
   (\<forall>f < length (hd data). \<forall>i < length data.
      candidates data ! (f * length data + i) = (int f, data ! i ! f)) \<and>
   (\<forall>c \<in> set (candidates data).
      splitLabels data labels (fst c) (snd c) =
        Some (leftLabelsOf data labels (fst c) (snd c), rightLabelsOf data labels (fst c) (snd c)))"
proof -
  have "\<forall>c \<in> set (candidates data). splitLabels data labels (fst c) (snd c) =
      Some (leftLabelsOf data labels (fst c) (snd c), rightLabelsOf data labels (fst c) (snd c))"
    using candidate_split_defined [OF assms] by blast
  with searchBest_outcome [OF assms] candidates_length [of data] candidates_nth [of _ data]
  show ?thesis by blast
qed

lemma candidates_boundary: "candidates [[1], [2], [3], [4]] = [(0, 1), (0, 2), (0, 3), (0, 4)]"
  by (simp add: candidates_def)

theorem split_search_first_maximum_witness:
  "fit_pre [[1], [2], [3], [4]] [0, 0, 1, 1] \<and>
   searchBest exact_arith [[1], [2], [3], [4]] [0, 0, 1, 1] = Some (0, 2, 1) \<and>
   (0, 2) = candidates [[1], [2], [3], [4]] ! 1 \<and>
   length (candidates [[1], [2], [3], [4]]) = length (hd [[1 :: real], [2], [3], [4]]) * length [[1 :: real], [2], [3], [4]]"
  using split_search_first_maximum [OF fit_pre_boundary] fit_pre_boundary searchBest_boundary
    candidates_boundary
  by simp

lemma no_gain_search:
  assumes "fit_pre data labels"
    and "\<forall>c \<in> set (candidates data). candidateGain A data labels c \<le> 0"
  shows "searchBest A data labels = Some (- 1, 0, 0)"
proof -
  from searchBest_outcome [OF assms(1)] obtain f t g where
    s: "searchBest A data labels = Some (f, t, g)" and
    o: "(f, t, g) = (- 1, 0, 0) \<or>
      (\<exists>i < length (candidates data). g = candidateGain A data labels (candidates data ! i) \<and> 0 < g)"
    by blast
  from o show ?thesis
  proof
    assume "(f, t, g) = (- 1, 0, 0)"
    with s show ?thesis by simp
  next
    assume "\<exists>i < length (candidates data). g = candidateGain A data labels (candidates data ! i) \<and> 0 < g"
    then obtain i where i: "i < length (candidates data)"
      "0 < candidateGain A data labels (candidates data ! i)" by blast
    from i(1) have "candidates data ! i \<in> set (candidates data)" by simp
    with assms(2) i(2) have False by force
    then show ?thesis ..
  qed
qed


text \<open>
  Claim C4. For a label list that is not pure (hence not empty), under the precondition of
  \<^verbatim>\<open>fit\<close>, if no candidate has a computed information gain strictly greater than 0 then the
  feature index stays unset and \<^verbatim>\<open>buildTree\<close> returns a leaf with the majority label: a label of
  maximal count, and the smallest label among those of maximal count.
\<close>

theorem no_gain_majority_leaf:
  assumes "fit_pre data labels" and "\<not> isPure labels"
    and "\<forall>c \<in> set (candidates data). candidateGain A data labels c \<le> 0"
  shows "\<exists>m. searchBest A data labels = Some (- 1, 0, 0) \<and>
           buildTree A data labels = Inr (leafNode m) \<and>
           majorityLabel labels = Some m \<and> m \<in> set labels \<and>
           (\<forall>l. count_list labels l \<le> count_list labels m) \<and>
           (\<forall>l. count_list labels l = count_list labels m \<longrightarrow> m \<le> l)"
proof -
  have s: "searchBest A data labels = Some (- 1, 0, 0)" using assms(1,3) by (rule no_gain_search)
  have "labels \<noteq> []" using fit_pre_nonempty [OF assms(1)] fit_pre_length [OF assms(1)] by auto
  from majorityLabel_spec [OF this] obtain m where
    m: "majorityLabel labels = Some m" "m \<in> set labels"
      "\<forall>l. count_list labels l \<le> count_list labels m"
      "\<forall>l. count_list labels l = count_list labels m \<longrightarrow> m \<le> l"
    by blast
  have "buildTree A data labels = Inr (leafNode m)"
    using assms(2) s m(1) by (simp add: buildTree.simps [of A data labels])
  with s m show ?thesis by blast
qed

lemma fit_pre_tie: "fit_pre [[5], [5]] [0, 1]"
  by (simp add: fit_pre_def)

lemma candidates_tie: "candidates [[5], [5]] = [(0, 5), (0, 5)]"
  by (simp add: candidates_def)

lemma gain_tie: "candidateGain A [[5], [5]] [0, 1] (0, 5) = 0"
  by (simp add: candidateGain_def leftLabelsOf_def rightLabelsOf_def gain_right_empty)

lemma not_pure_01: "\<not> isPure [0, 1]"
  by (simp add: isPure_iff)

lemma majorityLabel_tie: "majorityLabel [0, 1] = Some 0"
  by (simp add: majorityLabel_def nth_opt_def labelCounts_def majorityStep_def)

theorem no_gain_majority_leaf_witness:
  "fit_pre [[5], [5]] [0, 1] \<and> \<not> isPure [0, 1] \<and>
   candidateGain exact_arith [[5], [5]] [0, 1] (0, 5) \<le> 0 \<and>
   buildTree exact_arith [[5], [5]] [0, 1] = Inr (leafNode 0)"
  using no_gain_majority_leaf [OF fit_pre_tie not_pure_01] fit_pre_tie not_pure_01
  by (simp add: candidates_tie gain_tie majorityLabel_tie)

section \<open>Existence of a candidate of positive gain\<close>







end
